theory Spec2Isabelle
  imports Main "HOL-Library.Word" "HOL-Library.Signed_Division" "HOL-Library.List_Lexorder"
    "HOL-Library.Char_ord" "HOL-Library.Multiset"
begin

unbundle bit_operations_syntax

section \<open>Go values shared by the three source files\<close>

text \<open>
  Go's \<open>int\<close> is taken at its 64-bit width (\<open>64 word\<close>), \<open>int32\<close> and \<open>int16\<close> as
  \<open>32 word\<close> and \<open>16 word\<close> read through \<open>sint\<close>. A slice that may be \<open>nil\<close> is an
  \<open>option\<close> (\<open>None\<close> is \<open>nil\<close>, \<open>Some []\<close> the empty non-nil slice). A run-time panic is
  a value of type \<open>panic\<close>; a function that returns \<open>(value, error)\<close> returns a pair of
  options inside \<open>panic + _\<close>. \<open>make\<close> panics on a negative length; that an allocation
  may exhaust the memory is not modelled.
\<close>

type_synonym byte = "8 word"
type_synonym go_int = "64 word"

datatype panic = IndexOutOfRange | SliceBoundsOutOfRange | MakeSliceLenOutOfRange

definition seq :: "'e + 'a \<Rightarrow> ('a \<Rightarrow> 'e + 'b) \<Rightarrow> 'e + 'b" where
  "seq m f = (case m of Inl e \<Rightarrow> Inl e | Inr x \<Rightarrow> f x)"

text \<open>\<open>xs[i] = v\<close> on a slice: the index is checked against the length.\<close>

definition set_index :: "'a list \<Rightarrow> nat \<Rightarrow> 'a \<Rightarrow> panic + 'a list" where
  "set_index xs i v = (if i < length xs then Inr (xs[i := v]) else Inl IndexOutOfRange)"

text \<open>\<open>int(x)\<close> for an \<open>int32\<close> x (sign extension) and \<open>a / b\<close> on \<open>int\<close> (truncation
  towards zero; the only divisor in the source is the constant 2).\<close>

definition int_of_int32 :: "32 word \<Rightarrow> go_int" where
  "int_of_int32 x = word_of_int (sint x)"

definition go_div :: "go_int \<Rightarrow> go_int \<Rightarrow> go_int" where
  "go_div a b = word_of_int (sint a sdiv sint b)"

section \<open>Configuration (src/unnamed/part\_000)\<close>

record ConsumerConfig =
  BootstrapServers :: string
  ClientID :: string
  GroupID :: string
  RetryBackOffMS :: go_int
  MetadataMaxAgeMS :: go_int
  SessionTimeoutMS :: "32 word"
  FetchMaxWaitMS :: "32 word"
  FetchMaxBytes :: "32 word"
  FetchMinBytes :: "32 word"
  FromBeginning :: bool
  AutoCommit :: bool
  CommitAfterFetch :: bool
  AutoCommitIntervalMS :: go_int
  OffsetsStorage :: go_int
  ConnectTimeoutMS :: go_int
  TimeoutMS :: go_int
  TimeoutMSForEachAPI :: "go_int list option"

text \<open>
  Lines 79-87 of \<open>DefaultConsumerConfig\<close> and lines 104-112 of \<open>GetConsumerConfig\<close> are the
  same text. The API identifiers \<open>API_JoinGroup\<close>, \<open>API_OffsetCommitRequest\<close> and
  \<open>API_FetchRequest\<close> are constants declared outside src/; they are parameters here, in
  that order.
\<close>

definition deriveTimeoutMSForEachAPI ::
  "nat \<Rightarrow> nat \<Rightarrow> nat \<Rightarrow> ConsumerConfig \<Rightarrow> panic + ConsumerConfig" where
  "deriveTimeoutMSForEachAPI API_JoinGroup API_OffsetCommitRequest API_FetchRequest c =
     (if TimeoutMSForEachAPI c = None then
        seq (set_index (replicate 38 (TimeoutMS c)) API_JoinGroup
               (int_of_int32 (SessionTimeoutMS c) + 5000)) (\<lambda>v1.
        seq (set_index v1 API_OffsetCommitRequest
               (go_div (int_of_int32 (SessionTimeoutMS c)) 2)) (\<lambda>v2.
        seq (set_index v2 API_FetchRequest
               (TimeoutMS c + int_of_int32 (FetchMaxWaitMS c))) (\<lambda>v3.
        Inr (c\<lparr>TimeoutMSForEachAPI := Some v3\<rparr>))))
      else Inr c)"

definition DefaultConsumerConfig :: "nat \<Rightarrow> nat \<Rightarrow> nat \<Rightarrow> panic + ConsumerConfig" where
  "DefaultConsumerConfig API_JoinGroup API_OffsetCommitRequest API_FetchRequest =
     deriveTimeoutMSForEachAPI API_JoinGroup API_OffsetCommitRequest API_FetchRequest
       \<lparr> BootstrapServers = '''',
         ClientID = '''',
         GroupID = '''',
         RetryBackOffMS = 100,
         MetadataMaxAgeMS = 300000,
         SessionTimeoutMS = 30000,
         FetchMaxWaitMS = 100,
         FetchMaxBytes = 10 * 1024 * 1024,
         FetchMinBytes = 1,
         FromBeginning = False,
         AutoCommit = True,
         CommitAfterFetch = False,
         AutoCommitIntervalMS = 5000,
         OffsetsStorage = 1,
         ConnectTimeoutMS = 30000,
         TimeoutMS = 30000,
         TimeoutMSForEachAPI = None \<rparr>"

record ProducerConfig =
  BootstrapServers_p :: string
  ClientID_p :: string
  Acks :: "16 word"
  CompressionType :: string
  BatchSize :: go_int
  MessageMaxCount :: go_int
  FlushIntervalMS :: go_int
  MetadataMaxAgeMS_p :: go_int
  FetchTopicMetaDataRetrys :: go_int
  ConnectionsMaxIdleMS :: go_int
  Retries :: go_int
  RequestTimeoutMS :: "32 word"

text \<open>The errors declared at lines 169-174.\<close>

datatype config_error =
  messageMaxCountError | flushIntervalMSError | unknownCompressionType | bootstrapServersNotSet

text \<open>\<open>(config *ProducerConfig) checkValid\<close>; \<open>None\<close> is the \<open>nil\<close> error.\<close>

definition checkValid :: "ProducerConfig \<Rightarrow> config_error option" where
  "checkValid config =
     (if BootstrapServers_p config = '''' then Some bootstrapServersNotSet
      else if sint (MessageMaxCount config) \<le> 0 then Some messageMaxCountError
      else if sint (FlushIntervalMS config) \<le> 0 then Some flushIntervalMSError
      else if CompressionType config = ''none'' then None
      else if CompressionType config = ''gzip'' then None
      else if CompressionType config = ''snappy'' then None
      else if CompressionType config = ''lz4'' then None
      else Some unknownCompressionType)"

definition DefaultProducerConfig :: ProducerConfig where
  "DefaultProducerConfig =
     \<lparr> BootstrapServers_p = '''',
       ClientID_p = ''healer'',
       Acks = 1,
       CompressionType = ''none'',
       BatchSize = 16384,
       MessageMaxCount = 1024,
       FlushIntervalMS = 200,
       MetadataMaxAgeMS_p = 300000,
       FetchTopicMetaDataRetrys = 3,
       ConnectionsMaxIdleMS = 540000,
       Retries = 0,
       RequestTimeoutMS = 30000 \<rparr>"

subsection \<open>GetConsumerConfig and the JSON round trip\<close>

text \<open>
  \<open>GetConsumerConfig\<close> passes its \<open>map[string]interface{}\<close> through \<open>json.Marshal\<close> and
  \<open>json.Unmarshal\<close> of the standard library. The map is an association list with distinct
  keys, and a value is what the JSON text holds for it: \<open>null\<close>, a boolean, an integer
  literal, a string, an array of integer literals, an object (standing for every value
  that marshals but fits none of the struct's field types); \<open>JUnsupported\<close> stands for a Go
  value that \<open>json.Marshal\<close> refuses (a channel, a function).

  \<open>Marshal\<close> writes the keys of a map in sorted order and \<open>Unmarshal\<close> takes the members
  of the object in the order of the text. A member belongs to the field whose tag equals
  its key, or else equals it under case folding; the tags of \<open>ConsumerConfig\<close> are in
  lower case and pairwise different under folding, so the field is the one whose tag is
  the folded key. Folding maps the letters A-Z to a-z, and the two characters outside
  ASCII that fold to an ASCII letter, the Kelvin sign (E2 84 AA in UTF-8) to k and the
  long s (C5 BF) to s. A member whose key matches no tag is skipped. For its field,
  \<open>Unmarshal\<close> leaves a field that is no slice alone on \<open>null\<close>, sets a slice to \<open>nil\<close> on
  \<open>null\<close>, stores a value of the field's type, and reports a type error otherwise;
  \<open>GetConsumerConfig\<close> drops the configuration on any error. Several keys of one mapping
  may fold to the same tag: each is stored in turn, the last in sorted order stays.
\<close>

datatype jvalue =
  JNull | JBool bool | JNumber int | JString string | JInts "int list" | JObject | JUnsupported

datatype json_error = UnsupportedTypeError | UnmarshalTypeError

definition marshal_fails :: "(string \<times> jvalue) list \<Rightarrow> bool" where
  "marshal_fails config = (JUnsupported \<in> snd ` set config)"

definition lowerASCII :: "char \<Rightarrow> char" where
  "lowerASCII c =
     (if CHR ''A'' \<le> c \<and> c \<le> CHR ''Z'' then char_of (of_char c + (32 :: nat)) else c)"

fun foldName :: "string \<Rightarrow> string" where
  "foldName (a # b # c # cs) =
     (if a = CHR 0xE2 \<and> b = CHR 0x84 \<and> c = CHR 0xAA then CHR ''k'' # foldName cs
      else if a = CHR 0xC5 \<and> b = CHR 0xBF then CHR ''s'' # foldName (c # cs)
      else lowerASCII a # foldName (b # c # cs))"
| "foldName [a, b] =
     (if a = CHR 0xC5 \<and> b = CHR 0xBF then [CHR ''s''] else lowerASCII a # foldName [b])"
| "foldName [a] = [lowerASCII a]"
| "foldName [] = []"

definition in_int64 :: "int \<Rightarrow> bool" where
  "in_int64 n = (- (2 ^ 63) \<le> n \<and> n < 2 ^ 63)"

definition in_int32 :: "int \<Rightarrow> bool" where
  "in_int32 n = (- (2 ^ 31) \<le> n \<and> n < 2 ^ 31)"

definition unmarshal_int :: "jvalue \<Rightarrow> go_int \<Rightarrow> json_error + go_int" where
  "unmarshal_int j old =
     (case j of JNull \<Rightarrow> Inr old
      | JNumber n \<Rightarrow> if in_int64 n then Inr (word_of_int n) else Inl UnmarshalTypeError
      | _ \<Rightarrow> Inl UnmarshalTypeError)"

definition unmarshal_int32 :: "jvalue \<Rightarrow> 32 word \<Rightarrow> json_error + 32 word" where
  "unmarshal_int32 j old =
     (case j of JNull \<Rightarrow> Inr old
      | JNumber n \<Rightarrow> if in_int32 n then Inr (word_of_int n) else Inl UnmarshalTypeError
      | _ \<Rightarrow> Inl UnmarshalTypeError)"

definition unmarshal_string :: "jvalue \<Rightarrow> string \<Rightarrow> json_error + string" where
  "unmarshal_string j old =
     (case j of JNull \<Rightarrow> Inr old
      | JString s \<Rightarrow> Inr s
      | _ \<Rightarrow> Inl UnmarshalTypeError)"

definition unmarshal_bool :: "jvalue \<Rightarrow> bool \<Rightarrow> json_error + bool" where
  "unmarshal_bool j old =
     (case j of JNull \<Rightarrow> Inr old
      | JBool b \<Rightarrow> Inr b
      | _ \<Rightarrow> Inl UnmarshalTypeError)"

definition unmarshal_ints ::
  "jvalue \<Rightarrow> go_int list option \<Rightarrow> json_error + go_int list option" where
  "unmarshal_ints j old =
     (case j of JNull \<Rightarrow> Inr None
      | JInts ns \<Rightarrow>
          if list_all in_int64 ns then Inr (Some (map word_of_int ns)) else Inl UnmarshalTypeError
      | _ \<Rightarrow> Inl UnmarshalTypeError)"

text \<open>One member of the object, by the tag its key folds to (the tags of lines 41-57).\<close>

definition unmarshalField ::
  "string \<Rightarrow> jvalue \<Rightarrow> ConsumerConfig \<Rightarrow> json_error + ConsumerConfig" where
  "unmarshalField tag j c =
     (if tag = ''bootstrap.servers'' then
        seq (unmarshal_string j (BootstrapServers c)) (\<lambda>v. Inr (c\<lparr>BootstrapServers := v\<rparr>))
      else if tag = ''client.id'' then
        seq (unmarshal_string j (ClientID c)) (\<lambda>v. Inr (c\<lparr>ClientID := v\<rparr>))
      else if tag = ''group.id'' then
        seq (unmarshal_string j (GroupID c)) (\<lambda>v. Inr (c\<lparr>GroupID := v\<rparr>))
      else if tag = ''retry.backoff.ms'' then
        seq (unmarshal_int j (RetryBackOffMS c)) (\<lambda>v. Inr (c\<lparr>RetryBackOffMS := v\<rparr>))
      else if tag = ''metadata.max.age.ms'' then
        seq (unmarshal_int j (MetadataMaxAgeMS c)) (\<lambda>v. Inr (c\<lparr>MetadataMaxAgeMS := v\<rparr>))
      else if tag = ''session.timeout.ms'' then
        seq (unmarshal_int32 j (SessionTimeoutMS c)) (\<lambda>v. Inr (c\<lparr>SessionTimeoutMS := v\<rparr>))
      else if tag = ''fetch.max.wait.ms'' then
        seq (unmarshal_int32 j (FetchMaxWaitMS c)) (\<lambda>v. Inr (c\<lparr>FetchMaxWaitMS := v\<rparr>))
      else if tag = ''fetch.max.bytes'' then
        seq (unmarshal_int32 j (FetchMaxBytes c)) (\<lambda>v. Inr (c\<lparr>FetchMaxBytes := v\<rparr>))
      else if tag = ''fetch.min.bytes'' then
        seq (unmarshal_int32 j (FetchMinBytes c)) (\<lambda>v. Inr (c\<lparr>FetchMinBytes := v\<rparr>))
      else if tag = ''frombeginning'' then
        seq (unmarshal_bool j (FromBeginning c)) (\<lambda>v. Inr (c\<lparr>FromBeginning := v\<rparr>))
      else if tag = ''auto.commit'' then
        seq (unmarshal_bool j (AutoCommit c)) (\<lambda>v. Inr (c\<lparr>AutoCommit := v\<rparr>))
      else if tag = ''commit.after.fetch'' then
        seq (unmarshal_bool j (CommitAfterFetch c)) (\<lambda>v. Inr (c\<lparr>CommitAfterFetch := v\<rparr>))
      else if tag = ''auto.commit.interval.ms'' then
        seq (unmarshal_int j (AutoCommitIntervalMS c))
          (\<lambda>v. Inr (c\<lparr>AutoCommitIntervalMS := v\<rparr>))
      else if tag = ''offsets.storage'' then
        seq (unmarshal_int j (OffsetsStorage c)) (\<lambda>v. Inr (c\<lparr>OffsetsStorage := v\<rparr>))
      else if tag = ''connect.timeout.ms'' then
        seq (unmarshal_int j (ConnectTimeoutMS c)) (\<lambda>v. Inr (c\<lparr>ConnectTimeoutMS := v\<rparr>))
      else if tag = ''timeout.ms'' then
        seq (unmarshal_int j (TimeoutMS c)) (\<lambda>v. Inr (c\<lparr>TimeoutMS := v\<rparr>))
      else if tag = ''timeout.ms.for.eachapi'' then
        seq (unmarshal_ints j (TimeoutMSForEachAPI c))
          (\<lambda>v. Inr (c\<lparr>TimeoutMSForEachAPI := v\<rparr>))
      else Inr c)"

fun unmarshalMembers ::
  "(string \<times> jvalue) list \<Rightarrow> ConsumerConfig \<Rightarrow> json_error + ConsumerConfig" where
  "unmarshalMembers [] c = Inr c"
| "unmarshalMembers ((key, j) # members) c =
     seq (unmarshalField (foldName key) j c) (unmarshalMembers members)"

definition unmarshalConsumerConfig ::
  "(string \<times> jvalue) list \<Rightarrow> ConsumerConfig \<Rightarrow> json_error + ConsumerConfig" where
  "unmarshalConsumerConfig config c = unmarshalMembers (sort_key fst config) c"

definition GetConsumerConfig ::
  "nat \<Rightarrow> nat \<Rightarrow> nat \<Rightarrow> (string \<times> jvalue) list
     \<Rightarrow> panic + (ConsumerConfig option \<times> json_error option)" where
  "GetConsumerConfig API_JoinGroup API_OffsetCommitRequest API_FetchRequest config =
     (if marshal_fails config then Inr (None, Some UnsupportedTypeError)
      else
        seq (DefaultConsumerConfig API_JoinGroup API_OffsetCommitRequest API_FetchRequest) (\<lambda>c.
        case unmarshalConsumerConfig config c of
          Inl err \<Rightarrow> Inr (None, Some err)
        | Inr c \<Rightarrow>
            seq (deriveTimeoutMSForEachAPI API_JoinGroup API_OffsetCommitRequest
                   API_FetchRequest c) (\<lambda>c.
            Inr (Some c, None))))"


section \<open>Reading from the payload\<close>

text \<open>
  A \<open>[]byte\<close> has a length and a capacity: \<open>elems\<close> are the bytes below \<open>len(payload)\<close>,
  \<open>spare\<close> the bytes of the backing array between \<open>len(payload)\<close> and \<open>cap(payload)\<close>.
  Go checks an index and the low bound of \<open>payload[lo:]\<close> against the length, and the
  high bound of \<open>payload[lo:hi]\<close> against the capacity. Offsets are natural numbers: every
  addition to an offset follows a read that succeeded below the capacity, so neither Go's
  \<open>int\<close> nor its \<open>uint64\<close> offset can wrap.
\<close>

record slice =
  elems :: "byte list"
  spare :: "byte list"

text \<open>\<open>payload[offset:]\<close>, as far as its length reaches.\<close>

definition from_offset :: "slice \<Rightarrow> nat \<Rightarrow> panic + byte list" where
  "from_offset payload offset =
     (if offset \<le> length (elems payload) then Inr (drop offset (elems payload))
      else Inl SliceBoundsOutOfRange)"

text \<open>\<open>payload[lo:hi]\<close>.\<close>

definition subslice :: "slice \<Rightarrow> nat \<Rightarrow> nat \<Rightarrow> panic + byte list" where
  "subslice payload lo hi =
     (if lo \<le> hi \<and> hi \<le> length (elems payload) + length (spare payload)
      then Inr (take (hi - lo) (drop lo (elems payload @ spare payload)))
      else Inl SliceBoundsOutOfRange)"

text \<open>\<open>payload[offset]\<close>.\<close>

definition index :: "slice \<Rightarrow> nat \<Rightarrow> panic + byte" where
  "index payload offset =
     (if offset < length (elems payload) then Inr (elems payload ! offset)
      else Inl IndexOutOfRange)"

text \<open>\<open>binary.BigEndian.Uint16\<close>, \<open>Uint32\<close> and \<open>Uint64\<close>: the library first touches the
  last byte it needs, then combines the bytes by shifts.\<close>

definition Uint16 :: "byte list \<Rightarrow> panic + 16 word" where
  "Uint16 b =
     (if length b \<le> 1 then Inl IndexOutOfRange
      else Inr (ucast (b ! 1) OR push_bit 8 (ucast (b ! 0))))"

definition Uint32 :: "byte list \<Rightarrow> panic + 32 word" where
  "Uint32 b =
     (if length b \<le> 3 then Inl IndexOutOfRange
      else Inr (ucast (b ! 3) OR push_bit 8 (ucast (b ! 2)) OR push_bit 16 (ucast (b ! 1))
                OR push_bit 24 (ucast (b ! 0))))"

definition Uint64 :: "byte list \<Rightarrow> panic + 64 word" where
  "Uint64 b =
     (if length b \<le> 7 then Inl IndexOutOfRange
      else Inr (ucast (b ! 7) OR push_bit 8 (ucast (b ! 6)) OR push_bit 16 (ucast (b ! 5))
                OR push_bit 24 (ucast (b ! 4)) OR push_bit 32 (ucast (b ! 3))
                OR push_bit 40 (ucast (b ! 2)) OR push_bit 48 (ucast (b ! 1))
                OR push_bit 56 (ucast (b ! 0))))"

text \<open>\<open>binary.BigEndian.UintN(payload[offset:])\<close>.\<close>

definition uint16_at :: "slice \<Rightarrow> nat \<Rightarrow> panic + 16 word" where
  "uint16_at payload offset = seq (from_offset payload offset) Uint16"

definition uint32_at :: "slice \<Rightarrow> nat \<Rightarrow> panic + 32 word" where
  "uint32_at payload offset = seq (from_offset payload offset) Uint32"

definition uint64_at :: "slice \<Rightarrow> nat \<Rightarrow> panic + 64 word" where
  "uint64_at payload offset = seq (from_offset payload offset) Uint64"

text \<open>A loop \<open>for k := uint32(0); k < count; k++\<close> that reads one \<open>int32\<close> per round
  (\<open>Replicas\<close> and \<open>Isr\<close>).\<close>

fun readInt32s :: "slice \<Rightarrow> nat \<Rightarrow> nat \<Rightarrow> panic + (32 word list \<times> nat)" where
  "readInt32s payload 0 offset = Inr ([], offset)"
| "readInt32s payload (Suc cnt) offset =
     seq (uint32_at payload offset) (\<lambda>v.
     seq (readInt32s payload cnt (offset + 4)) (\<lambda>(vs, offset).
     Inr (v # vs, offset)))"

section \<open>Topology response (src/unnamed/part\_001)\<close>

text \<open>A Go \<open>string\<close> is its bytes; \<open><\<close> on strings is the lexicographic order of the
  bytes, which is \<open><\<close> on \<open>byte list\<close>.\<close>

record BrokerInfo =
  NodeId :: "32 word"
  Host :: "byte list"
  Port :: "32 word"

record PartitionMetadataInfo =
  PartitionErrorCode :: "16 word"
  PartitionID :: "32 word"
  Leader :: "32 word"
  Replicas :: "32 word list"
  Isr :: "32 word list"

record TopicMetadata =
  TopicErrorCode :: "16 word"
  TopicName :: "byte list"
  PartitionMetadatas :: "PartitionMetadataInfo list"

record MetadataResponse =
  CorrelationID :: "32 word"
  Brokers :: "BrokerInfo list"
  TopicMetadatas :: "TopicMetadata list"

text \<open>
  The error registry (\<open>getErrorFromErrorCode\<close> and the table \<open>AllError\<close>) is declared
  outside src/. The decoder takes the lookup and the entry \<open>AllError[9]\<close> as parameters;
  \<open>None\<close> is the \<open>nil\<close> error. The error a call returns is the formatted length mismatch
  of line 71 or an entry of the registry.
\<close>

datatype 'e response_error = LengthDidNotMatch nat nat | FromErrorCode 'e

text \<open>Lines 102-107 and 121-126: the same update of \<open>err\<close> for a topic's and for a
  partition's error code.\<close>

definition recordErrorCode ::
  "(16 word \<Rightarrow> 'e option) \<Rightarrow> 'e \<Rightarrow> 'e option \<Rightarrow> 16 word \<Rightarrow> 'e option" where
  "recordErrorCode getErrorFromErrorCode AllError9 err code =
     (if err = None \<and> code \<noteq> 0 then
        (let err = getErrorFromErrorCode code in
         if err = Some AllError9 then None else err)
      else err)"

definition readBroker :: "slice \<Rightarrow> nat \<Rightarrow> panic + (BrokerInfo \<times> nat)" where
  "readBroker payload offset =
     seq (uint32_at payload offset) (\<lambda>nodeId. let offset = offset + 4 in
     seq (uint16_at payload offset) (\<lambda>hostLength. let offset = offset + 2 in
     seq (subslice payload offset (offset + unat hostLength)) (\<lambda>host.
       let offset = offset + unat hostLength in
     seq (uint32_at payload offset) (\<lambda>port. let offset = offset + 4 in
     Inr (\<lparr>NodeId = nodeId, Host = host, Port = port\<rparr>, offset)))))"

fun readBrokers :: "slice \<Rightarrow> nat \<Rightarrow> nat \<Rightarrow> panic + (BrokerInfo list \<times> nat)" where
  "readBrokers payload 0 offset = Inr ([], offset)"
| "readBrokers payload (Suc cnt) offset =
     seq (readBroker payload offset) (\<lambda>(b, offset).
     seq (readBrokers payload cnt offset) (\<lambda>(bs, offset).
     Inr (b # bs, offset)))"

definition readPartitionMetadata ::
  "(16 word \<Rightarrow> 'e option) \<Rightarrow> 'e \<Rightarrow> slice \<Rightarrow> nat \<Rightarrow> 'e option
     \<Rightarrow> panic + (PartitionMetadataInfo \<times> nat \<times> 'e option)" where
  "readPartitionMetadata getErrorFromErrorCode AllError9 payload offset err =
     seq (uint16_at payload offset) (\<lambda>partitionErrorCode.
       let err = recordErrorCode getErrorFromErrorCode AllError9 err partitionErrorCode;
           offset = offset + 2 in
     seq (uint32_at payload offset) (\<lambda>partitionID. let offset = offset + 4 in
     seq (uint32_at payload offset) (\<lambda>leader. let offset = offset + 4 in
     seq (uint32_at payload offset) (\<lambda>replicasCount. let offset = offset + 4 in
     seq (readInt32s payload (unat replicasCount) offset) (\<lambda>(replicas, offset).
     seq (uint32_at payload offset) (\<lambda>isrCount. let offset = offset + 4 in
     seq (readInt32s payload (unat isrCount) offset) (\<lambda>(isr, offset).
     Inr (\<lparr>PartitionErrorCode = partitionErrorCode, PartitionID = partitionID,
            Leader = leader, Replicas = replicas, Isr = isr\<rparr>, offset, err))))))))"

fun readPartitionMetadatas ::
  "(16 word \<Rightarrow> 'e option) \<Rightarrow> 'e \<Rightarrow> slice \<Rightarrow> nat \<Rightarrow> nat \<Rightarrow> 'e option
     \<Rightarrow> panic + (PartitionMetadataInfo list \<times> nat \<times> 'e option)" where
  "readPartitionMetadatas getErrorFromErrorCode AllError9 payload 0 offset err =
     Inr ([], offset, err)"
| "readPartitionMetadatas getErrorFromErrorCode AllError9 payload (Suc cnt) offset err =
     seq (readPartitionMetadata getErrorFromErrorCode AllError9 payload offset err)
       (\<lambda>(p, offset, err).
     seq (readPartitionMetadatas getErrorFromErrorCode AllError9 payload cnt offset err)
       (\<lambda>(ps, offset, err).
     Inr (p # ps, offset, err)))"

definition readTopicMetadata ::
  "(16 word \<Rightarrow> 'e option) \<Rightarrow> 'e \<Rightarrow> slice \<Rightarrow> nat \<Rightarrow> 'e option
     \<Rightarrow> panic + (TopicMetadata \<times> nat \<times> 'e option)" where
  "readTopicMetadata getErrorFromErrorCode AllError9 payload offset err =
     seq (uint16_at payload offset) (\<lambda>topicErrorCode.
       let err = recordErrorCode getErrorFromErrorCode AllError9 err topicErrorCode;
           offset = offset + 2 in
     seq (uint16_at payload offset) (\<lambda>topicNameLength. let offset = offset + 2 in
     seq (subslice payload offset (offset + unat topicNameLength)) (\<lambda>topicName.
       let offset = offset + unat topicNameLength in
     seq (uint32_at payload offset) (\<lambda>partitionMetadataInfoCount. let offset = offset + 4 in
     seq (readPartitionMetadatas getErrorFromErrorCode AllError9 payload
            (unat partitionMetadataInfoCount) offset err) (\<lambda>(ps, offset, err).
     Inr (\<lparr>TopicErrorCode = topicErrorCode, TopicName = topicName,
            PartitionMetadatas = ps\<rparr>, offset, err))))))"

fun readTopicMetadatas ::
  "(16 word \<Rightarrow> 'e option) \<Rightarrow> 'e \<Rightarrow> slice \<Rightarrow> nat \<Rightarrow> nat \<Rightarrow> 'e option
     \<Rightarrow> panic + (TopicMetadata list \<times> nat \<times> 'e option)" where
  "readTopicMetadatas getErrorFromErrorCode AllError9 payload 0 offset err =
     Inr ([], offset, err)"
| "readTopicMetadatas getErrorFromErrorCode AllError9 payload (Suc cnt) offset err =
     seq (readTopicMetadata getErrorFromErrorCode AllError9 payload offset err)
       (\<lambda>(t, offset, err).
     seq (readTopicMetadatas getErrorFromErrorCode AllError9 payload cnt offset err)
       (\<lambda>(ts, offset, err).
     Inr (t # ts, offset, err)))"

text \<open>
  \<open>sort.Slice\<close> is code of the standard library. Given a \<open>less\<close> function that is a
  strict weak ordering, it rearranges the slice so that no element is less than one in
  front of it; where elements compare equal their order is not specified and depends on
  the library's algorithm. The decoder therefore takes \<open>sort.Slice\<close> as a parameter, once
  for each of the two element types it sorts (\<open>sortTopics\<close> and \<open>sortPartitions\<close>), and
  \<open>sortContract\<close> is what the library promises of it. \<open>insertionSort\<close> is one function
  that keeps the contract; the examples, whose slices have one sorted rearrangement
  only, are run with it.
\<close>

definition strictWeakOrdering :: "('a \<Rightarrow> 'a \<Rightarrow> bool) \<Rightarrow> bool" where
  "strictWeakOrdering lessFn =
     ((\<forall>a. \<not> lessFn a a)
      \<and> (\<forall>a b c. lessFn a b \<and> lessFn b c \<longrightarrow> lessFn a c)
      \<and> (\<forall>a b c. \<not> lessFn a b \<and> \<not> lessFn b c \<longrightarrow> \<not> lessFn a c))"

definition sortContract :: "(('a \<Rightarrow> 'a \<Rightarrow> bool) \<Rightarrow> 'a list \<Rightarrow> 'a list) \<Rightarrow> bool" where
  "sortContract sortSlice =
     (\<forall>lessFn xs. strictWeakOrdering lessFn \<longrightarrow>
        mset (sortSlice lessFn xs) = mset xs
        \<and> sorted_wrt (\<lambda>a b. \<not> lessFn b a) (sortSlice lessFn xs))"

fun insertLess :: "('a \<Rightarrow> 'a \<Rightarrow> bool) \<Rightarrow> 'a \<Rightarrow> 'a list \<Rightarrow> 'a list" where
  "insertLess lessFn x [] = [x]"
| "insertLess lessFn x (y # ys) =
     (if lessFn y x then y # insertLess lessFn x ys else x # y # ys)"

definition insertionSort :: "('a \<Rightarrow> 'a \<Rightarrow> bool) \<Rightarrow> 'a list \<Rightarrow> 'a list" where
  "insertionSort lessFn xs = foldr (insertLess lessFn) xs []"

text \<open>Lines 75-147: everything between the length check and the sorting.\<close>

definition decodeMetadataResponse ::
  "(16 word \<Rightarrow> 'e option) \<Rightarrow> 'e \<Rightarrow> slice \<Rightarrow> panic + (MetadataResponse \<times> 'e option)" where
  "decodeMetadataResponse getErrorFromErrorCode AllError9 payload =
     (let offset = 4 in
      seq (uint32_at payload offset) (\<lambda>correlationID. let offset = offset + 4 in
      seq (uint32_at payload offset) (\<lambda>brokersCount. let offset = offset + 4 in
      seq (readBrokers payload (unat brokersCount) offset) (\<lambda>(brokers, offset).
      seq (uint32_at payload offset) (\<lambda>topicMetadatasCount. let offset = offset + 4 in
      seq (readTopicMetadatas getErrorFromErrorCode AllError9 payload
             (unat topicMetadatasCount) offset None) (\<lambda>(topics, offset, err).
      Inr (\<lparr>CorrelationID = correlationID, Brokers = brokers, TopicMetadatas = topics\<rparr>,
           err)))))))"

text \<open>Lines 150-158.\<close>

definition sortMetadataResponse ::
  "((TopicMetadata \<Rightarrow> TopicMetadata \<Rightarrow> bool) \<Rightarrow> TopicMetadata list \<Rightarrow> TopicMetadata list)
     \<Rightarrow> ((PartitionMetadataInfo \<Rightarrow> PartitionMetadataInfo \<Rightarrow> bool)
          \<Rightarrow> PartitionMetadataInfo list \<Rightarrow> PartitionMetadataInfo list)
     \<Rightarrow> MetadataResponse \<Rightarrow> MetadataResponse" where
  "sortMetadataResponse sortTopics sortPartitions r =
     r\<lparr>TopicMetadatas :=
         map (\<lambda>p. p\<lparr>PartitionMetadatas :=
                      sortPartitions (\<lambda>a b. sint (PartitionID a) < sint (PartitionID b))
                        (PartitionMetadatas p)\<rparr>)
           (sortTopics (\<lambda>a b. TopicName a < TopicName b) (TopicMetadatas r))\<rparr>"

definition NewMetadataResponse ::
  "((TopicMetadata \<Rightarrow> TopicMetadata \<Rightarrow> bool) \<Rightarrow> TopicMetadata list \<Rightarrow> TopicMetadata list)
     \<Rightarrow> ((PartitionMetadataInfo \<Rightarrow> PartitionMetadataInfo \<Rightarrow> bool)
          \<Rightarrow> PartitionMetadataInfo list \<Rightarrow> PartitionMetadataInfo list)
     \<Rightarrow> (16 word \<Rightarrow> 'e option) \<Rightarrow> 'e \<Rightarrow> slice
     \<Rightarrow> panic + (MetadataResponse option \<times> 'e response_error option)" where
  "NewMetadataResponse sortTopics sortPartitions getErrorFromErrorCode AllError9 payload =
     seq (Uint32 (elems payload)) (\<lambda>responseLength.
     if unat responseLength + 4 \<noteq> length (elems payload)
     then Inr (None, Some (LengthDidNotMatch (unat responseLength + 4) (length (elems payload))))
     else
       seq (decodeMetadataResponse getErrorFromErrorCode AllError9 payload) (\<lambda>(r, err).
       Inr (Some (sortMetadataResponse sortTopics sortPartitions r),
            map_option FromErrorCode err)))"

section \<open>Fetch response (src/fetch\_response.go)\<close>

text \<open>
  Modelled from the spec: the struct \<open>Message\<close> (and \<open>MessageSet\<close>, a slice of it) is
  declared outside src/. Its fields are the seven the decoder assigns, with the types of
  the conversions at lines 71-99, as the data model of the specification lists them.
  \<open>zeroMessage\<close> is the value \<open>make([]Message, n)\<close> fills the slice with.
\<close>

record Message =
  Offset :: "64 word"
  MessageSize :: "32 word"
  Crc :: "32 word"
  MagicByte :: "8 word"
  Attributes :: "8 word"
  Key :: "byte list option"
  Value :: "byte list option"

definition zeroMessage :: Message where
  "zeroMessage = \<lparr>Offset = 0, MessageSize = 0, Crc = 0, MagicByte = 0, Attributes = 0,
                   Key = None, Value = None\<rparr>"

record TopicData =
  Partition :: "32 word"
  ErrorCode :: "16 word"
  HighwaterMarkOffset :: "64 word"
  MessageSetSize :: "32 word"
  MessageSet :: "Message list"

text \<open>An element of \<open>FetchResponse\<close>.\<close>

record FetchTopic =
  TopicName_f :: "byte list"
  TopicDatas :: "TopicData list"

text \<open>
  Lines 81-89 for the key and 91-99 for the value: the length as \<open>int32\<close>; \<open>-1\<close> gives
  \<open>nil\<close>; otherwise \<open>make([]byte, length)\<close>, which panics on a negative length, and a copy
  of \<open>payload[offset : offset+uint64(length)]\<close>.
\<close>

definition readBytes :: "slice \<Rightarrow> nat \<Rightarrow> panic + (byte list option \<times> nat)" where
  "readBytes payload offset =
     seq (uint32_at payload offset) (\<lambda>keyLength. let offset = offset + 4 in
     if keyLength = - 1 then Inr (None, offset)
     else if sint keyLength < 0 then Inl MakeSliceLenOutOfRange
     else
       seq (subslice payload offset (offset + nat (sint keyLength))) (\<lambda>key.
       Inr (Some key, offset + nat (sint keyLength))))"

text \<open>Lines 71-99: one round of the innermost loop, up to the test of line 100.\<close>

definition readMessage :: "slice \<Rightarrow> nat \<Rightarrow> panic + (Message \<times> nat)" where
  "readMessage payload offset =
     seq (uint64_at payload offset) (\<lambda>offset_field. let offset = offset + 8 in
     seq (uint32_at payload offset) (\<lambda>messageSize. let offset = offset + 4 in
     seq (uint32_at payload offset) (\<lambda>crc. let offset = offset + 4 in
     seq (index payload offset) (\<lambda>magicByte. let offset = offset + 1 in
     seq (index payload offset) (\<lambda>attributes. let offset = offset + 1 in
     seq (readBytes payload offset) (\<lambda>(key, offset).
     seq (readBytes payload offset) (\<lambda>(val, offset).
     Inr (\<lparr>Offset = offset_field, MessageSize = messageSize, Crc = crc,
            MagicByte = magicByte, Attributes = attributes, Key = key, Value = val\<rparr>,
          offset))))))))"

text \<open>
  The loop of lines 70-103 with \<open>cnt\<close> rounds left: the messages it has filled in, in
  order, and the offset it stops at. It stops when the rounds are used up, or after a
  message that ends at \<open>len(payload)\<close> (line 100).
\<close>

fun readMessages :: "slice \<Rightarrow> nat \<Rightarrow> nat \<Rightarrow> panic + (Message list \<times> nat)" where
  "readMessages payload 0 offset = Inr ([], offset)"
| "readMessages payload (Suc cnt) offset =
     seq (readMessage payload offset) (\<lambda>(m, offset).
     if offset = length (elems payload) then Inr ([m], offset)
     else
       seq (readMessages payload cnt offset) (\<lambda>(ms, offset).
       Inr (m # ms, offset)))"

text \<open>
  Lines 61-103: one partition. \<open>make([]Message, MessageSetSize)\<close> panics on a negative
  size; the slots the loop has not filled keep the zero value.
\<close>

definition readTopicData :: "slice \<Rightarrow> nat \<Rightarrow> panic + (TopicData \<times> nat)" where
  "readTopicData payload offset =
     seq (uint32_at payload offset) (\<lambda>partition. let offset = offset + 4 in
     seq (uint16_at payload offset) (\<lambda>errorCode. let offset = offset + 2 in
     seq (uint64_at payload offset) (\<lambda>highwaterMarkOffset. let offset = offset + 8 in
     seq (uint32_at payload offset) (\<lambda>messageSetSize. let offset = offset + 4 in
     if sint messageSetSize < 0 then Inl MakeSliceLenOutOfRange
     else
       seq (readMessages payload (nat (sint messageSetSize)) offset) (\<lambda>(ms, offset).
       Inr (\<lparr>Partition = partition, ErrorCode = errorCode,
              HighwaterMarkOffset = highwaterMarkOffset, MessageSetSize = messageSetSize,
              MessageSet = ms @ replicate (nat (sint messageSetSize) - length ms) zeroMessage\<rparr>,
            offset))))))"

fun readTopicDatas :: "slice \<Rightarrow> nat \<Rightarrow> nat \<Rightarrow> panic + (TopicData list \<times> nat)" where
  "readTopicDatas payload 0 offset = Inr ([], offset)"
| "readTopicDatas payload (Suc cnt) offset =
     seq (readTopicData payload offset) (\<lambda>(d, offset).
     seq (readTopicDatas payload cnt offset) (\<lambda>(ds, offset).
     Inr (d # ds, offset)))"

definition readFetchTopic :: "slice \<Rightarrow> nat \<Rightarrow> panic + (FetchTopic \<times> nat)" where
  "readFetchTopic payload offset =
     seq (uint16_at payload offset) (\<lambda>topicNameLength. let offset = offset + 2 in
     seq (subslice payload offset (offset + unat topicNameLength)) (\<lambda>topicName.
       let offset = offset + unat topicNameLength in
     seq (uint32_at payload offset) (\<lambda>topicDataCount. let offset = offset + 4 in
     seq (readTopicDatas payload (unat topicDataCount) offset) (\<lambda>(ds, offset).
     Inr (\<lparr>TopicName_f = topicName, TopicDatas = ds\<rparr>, offset)))))"

fun readFetchTopics :: "slice \<Rightarrow> nat \<Rightarrow> nat \<Rightarrow> panic + (FetchTopic list \<times> nat)" where
  "readFetchTopics payload 0 offset = Inr ([], offset)"
| "readFetchTopics payload (Suc cnt) offset =
     seq (readFetchTopic payload offset) (\<lambda>(t, offset).
     seq (readFetchTopics payload cnt offset) (\<lambda>(ts, offset).
     Inr (t # ts, offset)))"

text \<open>The function returns \<open>(fetchResponse, nil)\<close>; the second component is the error.
  It has no error of its own to return, so the error type is \<open>unit\<close>.\<close>

definition DecodeFetchResponse :: "slice \<Rightarrow> panic + (FetchTopic list \<times> unit option)" where
  "DecodeFetchResponse payload =
     (let offset = 0 in
      seq (uint32_at payload offset) (\<lambda>topicDataCount. let offset = offset + 4 in
      seq (readFetchTopics payload (unat topicDataCount) offset) (\<lambda>(fetchResponse, offset).
      Inr (fetchResponse, None))))"

section \<open>Notions used to state the properties\<close>




text \<open>
  Modelled from the spec: the error registry is declared outside src/. For the concrete
  examples below it is a registry in which code 0 is no error and every other code has
  an error kind of its own, named by the code; \<open>AllError[9]\<close> is then the kind of code 9.
\<close>

definition sampleRegistry :: "16 word \<Rightarrow> 16 word option" where
  "sampleRegistry code = (if code = 0 then None else Some code)"

subsection \<open>The wire layout of a fetch response\<close>

text \<open>
  To say which buffers a property is about, the bytes of a fetch response are written
  down as the decoder consumes them (the layout in the comment of lines 7-21 of
  \<open>fetch_response.go\<close>, field by field as lines 43-99 read it). \<open>PutUint16\<close>, \<open>PutUint32\<close>
  and \<open>PutUint64\<close> are the big-endian writers of \<open>encoding/binary\<close>. A key or value is its
  length followed by its bytes, or the length \<open>-1\<close> when it is \<open>nil\<close>.
\<close>

definition PutUint16 :: "16 word \<Rightarrow> byte list" where
  "PutUint16 v = [ucast (drop_bit 8 v), ucast v]"

definition PutUint32 :: "32 word \<Rightarrow> byte list" where
  "PutUint32 v = [ucast (drop_bit 24 v), ucast (drop_bit 16 v), ucast (drop_bit 8 v), ucast v]"

definition PutUint64 :: "64 word \<Rightarrow> byte list" where
  "PutUint64 v =
     [ucast (drop_bit 56 v), ucast (drop_bit 48 v), ucast (drop_bit 40 v),
      ucast (drop_bit 32 v), ucast (drop_bit 24 v), ucast (drop_bit 16 v),
      ucast (drop_bit 8 v), ucast v]"

definition wireBytes :: "byte list option \<Rightarrow> byte list" where
  "wireBytes b =
     (case b of None \<Rightarrow> PutUint32 (- 1)
      | Some bs \<Rightarrow> PutUint32 (word_of_nat (length bs)) @ bs)"

definition wireMessage :: "Message \<Rightarrow> byte list" where
  "wireMessage m =
     PutUint64 (Offset m) @ PutUint32 (MessageSize m) @ PutUint32 (Crc m)
     @ [MagicByte m, Attributes m] @ wireBytes (Key m) @ wireBytes (Value m)"

text \<open>A key or value that an \<open>int32\<close> length can announce.\<close>

definition fitsInt32 :: "byte list option \<Rightarrow> bool" where
  "fitsInt32 b = (case b of None \<Rightarrow> True | Some bs \<Rightarrow> length bs < 2 ^ 31)"

definition wellFormed :: "Message \<Rightarrow> bool" where
  "wellFormed m = (fitsInt32 (Key m) \<and> fitsInt32 (Value m))"

text \<open>The bytes in front of the messages when the response holds one topic with one
  partition.\<close>

definition wireOnePartition ::
  "byte list \<Rightarrow> 32 word \<Rightarrow> 16 word \<Rightarrow> 64 word \<Rightarrow> 32 word \<Rightarrow> byte list" where
  "wireOnePartition topicName partitionId errorCode highwaterMarkOffset messageSetSize =
     PutUint32 1 @ PutUint16 (word_of_nat (length topicName)) @ topicName @ PutUint32 1
     @ PutUint32 partitionId @ PutUint16 errorCode @ PutUint64 highwaterMarkOffset
     @ PutUint32 messageSetSize"

text \<open>
  The bytes \<open>bs\<close> stand at \<open>offset\<close> in the backing array of the payload (its elements
  followed by its spare capacity).
\<close>

definition onWire :: "slice \<Rightarrow> nat \<Rightarrow> byte list \<Rightarrow> bool" where
  "onWire payload offset bs =
     (take (length bs) (drop offset (elems payload @ spare payload)) = bs)"

text \<open>
  The layout of a whole response, as lines 43-99 read it: the number of topics; per
  topic the name and the number of partitions; per partition the four fields in front
  of the messages (\<open>wireTopicDataHead\<close>) and the messages. A response is \<open>complete\<close> when
  every partition holds as many messages as its \<open>MessageSetSize\<close> says, every key and
  value has a length an \<open>int32\<close> can announce, and names and counts fit their fields.
\<close>

definition wireTopicDataHead :: "TopicData \<Rightarrow> byte list" where
  "wireTopicDataHead d =
     PutUint32 (Partition d) @ PutUint16 (ErrorCode d) @ PutUint64 (HighwaterMarkOffset d)
     @ PutUint32 (MessageSetSize d)"

definition wireTopicData :: "TopicData \<Rightarrow> byte list" where
  "wireTopicData d = wireTopicDataHead d @ concat (map wireMessage (MessageSet d))"

definition wireFetchTopic :: "FetchTopic \<Rightarrow> byte list" where
  "wireFetchTopic t =
     PutUint16 (word_of_nat (length (TopicName_f t))) @ TopicName_f t
     @ PutUint32 (word_of_nat (length (TopicDatas t)))
     @ concat (map wireTopicData (TopicDatas t))"

definition wireFetchResponse :: "FetchTopic list \<Rightarrow> byte list" where
  "wireFetchResponse r = PutUint32 (word_of_nat (length r)) @ concat (map wireFetchTopic r)"

definition completeTopicData :: "TopicData \<Rightarrow> bool" where
  "completeTopicData d =
     (0 \<le> sint (MessageSetSize d)
      \<and> length (MessageSet d) = nat (sint (MessageSetSize d))
      \<and> list_all wellFormed (MessageSet d))"

definition completeTopic :: "FetchTopic \<Rightarrow> bool" where
  "completeTopic t =
     (length (TopicName_f t) < 2 ^ 16 \<and> length (TopicDatas t) < 2 ^ 32
      \<and> list_all completeTopicData (TopicDatas t))"

definition completeResponse :: "FetchTopic list \<Rightarrow> bool" where
  "completeResponse r = (length r < 2 ^ 32 \<and> list_all completeTopic r)"

subsection \<open>Example payloads\<close>


text \<open>Two topics, both named \<open>t\<close>, without partitions.\<close>

definition duplicateTopicsPayload :: slice where
  "duplicateTopicsPayload = \<lparr>elems =
     [0, 0, 0, 30, 0, 0, 0, 1, 0, 0, 0, 0, 0, 0, 0, 2,
      0, 0, 0, 1, 116, 0, 0, 0, 0,
      0, 0, 0, 1, 116, 0, 0, 0, 0], spare = []\<rparr>"

text \<open>One broker; topic \<open>orders\<close> with partitions 2, 0, 1 in this order (partition 1 has
  leader -1), then topic \<open>events\<close> without partitions.\<close>

definition unorderedPayload :: slice where
  "unorderedPayload = \<lparr>elems =
     [0, 0, 0, 105, 0, 0, 0, 7, 0, 0, 0, 1,
      0, 0, 0, 1, 0, 1, 104, 0, 0, 35, 132,
      0, 0, 0, 2,
      0, 0, 0, 6, 111, 114, 100, 101, 114, 115, 0, 0, 0, 3,
      0, 0, 0, 0, 0, 2, 0, 0, 0, 1, 0, 0, 0, 0, 0, 0, 0, 0,
      0, 0, 0, 0, 0, 0, 0, 0, 0, 1, 0, 0, 0, 0, 0, 0, 0, 0,
      0, 0, 0, 0, 0, 1, 255, 255, 255, 255, 0, 0, 0, 0, 0, 0, 0, 0,
      0, 0, 0, 6, 101, 118, 101, 110, 116, 115, 0, 0, 0, 0], spare = []\<rparr>"

text \<open>A fetch response for topic \<open>t\<close>, partition 7, error code 3, two messages declared:
  the bytes in front of the messages, and one message of 28 bytes with a \<open>nil\<close> key and
  the value 7, 8.\<close>

definition fetchHead :: "byte list" where
  "fetchHead =
     [0, 0, 0, 1, 0, 1, 116, 0, 0, 0, 1,
      0, 0, 0, 7, 0, 3, 0, 0, 0, 0, 0, 0, 0, 5, 0, 0, 0, 2]"

definition fetchMessage :: "byte list" where
  "fetchMessage =
     [0, 0, 0, 0, 0, 0, 0, 9, 0, 0, 0, 20, 1, 2, 3, 4, 0, 0,
      255, 255, 255, 255, 0, 0, 0, 2, 7, 8]"

definition decodedMessage :: Message where
  "decodedMessage = \<lparr>Offset = 9, MessageSize = 20, Crc = 16909060, MagicByte = 0,
                      Attributes = 0, Key = None, Value = Some [7, 8]\<rparr>"


definition duplicateTopicsSnapshot :: MetadataResponse where
  "duplicateTopicsSnapshot =
     \<lparr>CorrelationID = 1, Brokers = [],
        TopicMetadatas =
          [\<lparr>TopicErrorCode = 0, TopicName = [116], PartitionMetadatas = []\<rparr>,
           \<lparr>TopicErrorCode = 0, TopicName = [116], PartitionMetadatas = []\<rparr>]\<rparr>"

definition orderedSnapshot :: MetadataResponse where
  "orderedSnapshot =
     \<lparr>CorrelationID = 7, Brokers = [\<lparr>NodeId = 1, Host = [104], Port = 9092\<rparr>],
        TopicMetadatas =
          [\<lparr>TopicErrorCode = 0, TopicName = [101, 118, 101, 110, 116, 115],
              PartitionMetadatas = []\<rparr>,
           \<lparr>TopicErrorCode = 0, TopicName = [111, 114, 100, 101, 114, 115],
              PartitionMetadatas =
                [\<lparr>PartitionErrorCode = 0, PartitionID = 0, Leader = 1,
                    Replicas = [], Isr = []\<rparr>,
                 \<lparr>PartitionErrorCode = 0, PartitionID = 1, Leader = - 1,
                    Replicas = [], Isr = []\<rparr>,
                 \<lparr>PartitionErrorCode = 0, PartitionID = 2, Leader = 1,
                    Replicas = [], Isr = []\<rparr>]\<rparr>]\<rparr>"

text \<open>What the decoder makes of \<open>fetchHead\<close> followed by one \<open>fetchMessage\<close>.\<close>

definition earlyStopData :: TopicData where
  "earlyStopData =
     \<lparr>Partition = 7, ErrorCode = 3, HighwaterMarkOffset = 5, MessageSetSize = 2,
        MessageSet = [decodedMessage, zeroMessage]\<rparr>"

text \<open>The bytes in front of the messages for topic \<open>t\<close>, partition 7, error code 3, one
  message declared; and the message of \<open>fetchMessage\<close> with 99 as the last byte of its
  value.\<close>

definition fetchHeadOne :: "byte list" where
  "fetchHeadOne =
     [0, 0, 0, 1, 0, 1, 116, 0, 0, 0, 1,
      0, 0, 0, 7, 0, 3, 0, 0, 0, 0, 0, 0, 0, 5, 0, 0, 0, 1]"

definition spareMessage :: Message where
  "spareMessage = \<lparr>Offset = 9, MessageSize = 20, Crc = 16909060, MagicByte = 0,
                    Attributes = 0, Key = None, Value = Some [7, 99]\<rparr>"

text \<open>A fetch response for topic \<open>t\<close> with two partitions: partition 7 with error code 3
  and the message of \<open>fetchMessage\<close>, partition 8 with error code 6 and no message.\<close>

definition twoPartitionsPayload :: "byte list" where
  "twoPartitionsPayload =
     [0, 0, 0, 1, 0, 1, 116, 0, 0, 0, 2,
      0, 0, 0, 7, 0, 3, 0, 0, 0, 0, 0, 0, 0, 5, 0, 0, 0, 1,
      0, 0, 0, 0, 0, 0, 0, 9, 0, 0, 0, 20, 1, 2, 3, 4, 0, 0,
      255, 255, 255, 255, 0, 0, 0, 2, 7, 8,
      0, 0, 0, 8, 0, 6, 0, 0, 0, 0, 0, 0, 0, 9, 0, 0, 0, 0]"

definition twoPartitionsSnapshot :: "FetchTopic list" where
  "twoPartitionsSnapshot =
     [\<lparr>TopicName_f = [116],
        TopicDatas =
          [\<lparr>Partition = 7, ErrorCode = 3, HighwaterMarkOffset = 5, MessageSetSize = 1,
              MessageSet = [decodedMessage]\<rparr>,
           \<lparr>Partition = 8, ErrorCode = 6, HighwaterMarkOffset = 9, MessageSetSize = 0,
              MessageSet = []\<rparr>]\<rparr>]"

section \<open>Properties of the configuration\<close>

lemma seq_simps:
  "seq (Inl e) f = Inl e"
  "seq (Inr x) f = f x"
  by (simp_all add: seq_def)

lemma seq_Inr_iff: "seq m f = Inr y \<longleftrightarrow> (\<exists>x. m = Inr x \<and> f x = Inr y)"
  by (cases m) (simp_all add: seq_simps)

text \<open>
  C9. For a producer configuration with non-empty bootstrap servers, a positive message
  count and a positive flush interval, \<open>checkValid\<close> succeeds exactly for the compression
  types none, gzip, snappy and lz4, and reports \<open>unknownCompressionType\<close> for every other
  string.
\<close>

theorem checkValid_compression:
  assumes "BootstrapServers_p config \<noteq> ''''"
    and "0 < sint (MessageMaxCount config)"
    and "0 < sint (FlushIntervalMS config)"
  shows "(checkValid config = None
            \<longleftrightarrow> CompressionType config \<in> {''none'', ''gzip'', ''snappy'', ''lz4''})
         \<and> (CompressionType config \<notin> {''none'', ''gzip'', ''snappy'', ''lz4''}
            \<longrightarrow> checkValid config = Some unknownCompressionType)"
  using assms by (simp add: checkValid_def)

theorem checkValid_compression_witness:
  "checkValid (DefaultProducerConfig\<lparr>BootstrapServers_p := ''localhost:9092''\<rparr>) = None
   \<and> checkValid (DefaultProducerConfig\<lparr>BootstrapServers_p := ''localhost:9092'',
                    CompressionType := ''zstd''\<rparr>) = Some unknownCompressionType"
proof -
  let ?a = "DefaultProducerConfig\<lparr>BootstrapServers_p := ''localhost:9092''\<rparr>"
  let ?b = "?a\<lparr>CompressionType := ''zstd''\<rparr>"
  have a: "BootstrapServers_p ?a \<noteq> ''''" "0 < sint (MessageMaxCount ?a)"
    "0 < sint (FlushIntervalMS ?a)"
    by (simp_all add: DefaultProducerConfig_def)
  have b: "BootstrapServers_p ?b \<noteq> ''''" "0 < sint (MessageMaxCount ?b)"
    "0 < sint (FlushIntervalMS ?b)"
    by (simp_all add: DefaultProducerConfig_def)
  have "CompressionType ?a \<in> {''none'', ''gzip'', ''snappy'', ''lz4''}"
    by (simp add: DefaultProducerConfig_def)
  with checkValid_compression [OF a] have 1: "checkValid ?a = None"
    by blast
  have "CompressionType ?b \<notin> {''none'', ''gzip'', ''snappy'', ''lz4''}"
    by simp
  with checkValid_compression [OF b] have 2: "checkValid ?b = Some unknownCompressionType"
    by blast
  from 1 2 show ?thesis by simp
qed

text \<open>
  C8. The per-API timeout vector of \<open>DefaultConsumerConfig()\<close> has exactly 38 entries; the
  join-group entry is \<open>SessionTimeoutMS + 5000\<close>, the offset-commit entry is
  \<open>SessionTimeoutMS / 2\<close>, the fetch entry is \<open>TimeoutMS + FetchMaxWaitMS\<close> and every other
  entry is \<open>TimeoutMS\<close>. The three API identifiers are declared outside src/; the theorem
  holds for any three distinct identifiers below 38.
\<close>

theorem DefaultConsumerConfig_timeouts:
  assumes "API_JoinGroup < 38" and "API_OffsetCommitRequest < 38" and "API_FetchRequest < 38"
    and "distinct [API_JoinGroup, API_OffsetCommitRequest, API_FetchRequest]"
  shows "\<exists>c v. DefaultConsumerConfig API_JoinGroup API_OffsetCommitRequest API_FetchRequest = Inr c
           \<and> SessionTimeoutMS c = 30000 \<and> TimeoutMS c = 30000 \<and> FetchMaxWaitMS c = 100
           \<and> TimeoutMSForEachAPI c = Some v
           \<and> length v = 38
           \<and> v ! API_JoinGroup = int_of_int32 (SessionTimeoutMS c) + 5000
           \<and> v ! API_OffsetCommitRequest = go_div (int_of_int32 (SessionTimeoutMS c)) 2
           \<and> v ! API_FetchRequest = TimeoutMS c + int_of_int32 (FetchMaxWaitMS c)
           \<and> (\<forall>i < 38. i \<notin> {API_JoinGroup, API_OffsetCommitRequest, API_FetchRequest}
                 \<longrightarrow> v ! i = TimeoutMS c)"
  using assms
  by (simp add: DefaultConsumerConfig_def deriveTimeoutMSForEachAPI_def set_index_def seq_simps)

theorem DefaultConsumerConfig_timeouts_witness:
  "\<exists>c v. DefaultConsumerConfig 11 8 1 = Inr c \<and> TimeoutMSForEachAPI c = Some v
     \<and> length v = 38 \<and> v ! 11 = 35000 \<and> v ! 8 = 15000 \<and> v ! 1 = 30100 \<and> v ! 0 = 30000
     \<and> v ! 37 = 30000"
proof -
  have h: "(11::nat) < 38" "(8::nat) < 38" "(1::nat) < 38" "distinct [11, 8, 1::nat]"
    by simp_all
  from DefaultConsumerConfig_timeouts [OF h] obtain c v where
    c: "DefaultConsumerConfig 11 8 1 = Inr c" "SessionTimeoutMS c = 30000"
      "TimeoutMS c = 30000" "FetchMaxWaitMS c = 100" "TimeoutMSForEachAPI c = Some v"
      "length v = 38" "v ! 11 = int_of_int32 (SessionTimeoutMS c) + 5000"
      "v ! 8 = go_div (int_of_int32 (SessionTimeoutMS c)) 2"
      "v ! 1 = TimeoutMS c + int_of_int32 (FetchMaxWaitMS c)"
    and rest: "\<forall>i < 38. i \<notin> {11, 8, 1::nat} \<longrightarrow> v ! i = TimeoutMS c"
    by blast
  from rest have "v ! 0 = TimeoutMS c" "v ! 37 = TimeoutMS c"
    by simp_all
  with c show ?thesis
    by (simp add: int_of_int32_def go_div_def)
qed

text \<open>When no key of the mapping folds to \<open>timeout.ms.for.eachapi\<close>, the vector of the
  result is the vector of \<open>DefaultConsumerConfig()\<close>, whatever else the mapping overrides.\<close>

lemma unmarshalField_other:
  assumes "tag \<noteq> ''timeout.ms.for.eachapi''" and "unmarshalField tag j d = Inr c"
  shows "TimeoutMSForEachAPI c = TimeoutMSForEachAPI d"
  using assms by (auto simp: unmarshalField_def seq_Inr_iff split: if_splits)

lemma unmarshalMembers_vector_absent:
  assumes "\<forall>key \<in> fst ` set members. foldName key \<noteq> ''timeout.ms.for.eachapi''"
    and "unmarshalMembers members d = Inr c"
  shows "TimeoutMSForEachAPI c = TimeoutMSForEachAPI d"
  using assms
proof (induction members arbitrary: d)
  case Nil
  then show ?case by simp
next
  case (Cons m members)
  obtain key j where m: "m = (key, j)" by (cases m)
  from Cons.prems(2) obtain d' where f: "unmarshalField (foldName key) j d = Inr d'"
    and r: "unmarshalMembers members d' = Inr c"
    by (auto simp: m seq_Inr_iff)
  from Cons.prems(1) have k: "foldName key \<noteq> ''timeout.ms.for.eachapi''"
    and ks: "\<forall>key \<in> fst ` set members. foldName key \<noteq> ''timeout.ms.for.eachapi''"
    by (simp_all add: m)
  from unmarshalField_other [OF k f] Cons.IH [OF ks r] show ?case by simp
qed

lemma GetConsumerConfig_absent_key_general:
  assumes "\<forall>key \<in> fst ` set config. foldName key \<noteq> ''timeout.ms.for.eachapi''"
    and "GetConsumerConfig jg oc fr config = Inr (Some c, None)"
  shows "\<exists>d. DefaultConsumerConfig jg oc fr = Inr d
            \<and> TimeoutMSForEachAPI c = TimeoutMSForEachAPI d
            \<and> TimeoutMSForEachAPI d \<noteq> None"
proof -
  from assms(2) obtain d where d: "DefaultConsumerConfig jg oc fr = Inr d"
    and rest: "(case unmarshalConsumerConfig config d of
                  Inl err \<Rightarrow> Inr (None, Some err)
                | Inr c \<Rightarrow> seq (deriveTimeoutMSForEachAPI jg oc fr c) (\<lambda>c. Inr (Some c, None)))
               = Inr (Some c, None)"
    by (auto simp: GetConsumerConfig_def seq_Inr_iff split: if_splits)
  then obtain c' where u: "unmarshalConsumerConfig config d = Inr c'"
    and c: "deriveTimeoutMSForEachAPI jg oc fr c' = Inr c"
    by (cases "unmarshalConsumerConfig config d") (auto simp: seq_Inr_iff)
  from d have n: "TimeoutMSForEachAPI d \<noteq> None"
    by (auto simp: DefaultConsumerConfig_def deriveTimeoutMSForEachAPI_def seq_Inr_iff
        split: if_splits)
  from assms(1) have "\<forall>key \<in> fst ` set (sort_key fst config).
      foldName key \<noteq> ''timeout.ms.for.eachapi''"
    by simp
  from unmarshalMembers_vector_absent [OF this] u
  have v: "TimeoutMSForEachAPI c' = TimeoutMSForEachAPI d"
    by (simp add: unmarshalConsumerConfig_def)
  with n c have "c = c'"
    by (auto simp: deriveTimeoutMSForEachAPI_def)
  with v d n show ?thesis by simp
qed

text \<open>A key that differs from a tag only in the case of its letters sets the same field.\<close>

lemma GetConsumerConfig_key_case:
  "GetConsumerConfig 11 8 1 [(''Timeout.MS'', JNumber 1000)]
     = GetConsumerConfig 11 8 1 [(''timeout.ms'', JNumber 1000)]"
  by code_simp

text \<open>
  C10. \<open>GetConsumerConfig\<close> starts from \<open>DefaultConsumerConfig()\<close>, whose vector is already
  filled from the default values, so the \<open>nil\<close> test after \<open>json.Unmarshal\<close> fails when the
  key \<open>timeout.ms.for.eachapi\<close> is absent: the vector stays the one derived from the
  defaults, whatever \<open>timeout.ms\<close> was overridden to. Here \<open>timeout.ms\<close> is 1000 and the
  vector still holds 30000, 30100, 15000 and 35000.
\<close>

theorem GetConsumerConfig_absent_key_keeps_default_vector:
  "\<exists>c. GetConsumerConfig 11 8 1 [(''timeout.ms'', JNumber 1000)] = Inr (Some c, None)
     \<and> TimeoutMS c = 1000
     \<and> TimeoutMSForEachAPI c =
         Some ([30000, 30100] @ replicate 6 30000 @ [15000, 30000, 30000, 35000]
               @ replicate 26 30000)"
proof -
  let ?c = "\<lparr> BootstrapServers = [], ClientID = [], GroupID = [], RetryBackOffMS = 100,
       MetadataMaxAgeMS = 300000, SessionTimeoutMS = 30000, FetchMaxWaitMS = 100,
       FetchMaxBytes = 10485760, FetchMinBytes = 1, FromBeginning = False,
       AutoCommit = True, CommitAfterFetch = False, AutoCommitIntervalMS = 5000,
       OffsetsStorage = 1, ConnectTimeoutMS = 30000, TimeoutMS = 1000,
       TimeoutMSForEachAPI =
         Some ([30000, 30100] @ replicate 6 30000 @ [15000, 30000, 30000, 35000]
               @ replicate 26 30000) \<rparr>"
  have "GetConsumerConfig 11 8 1 [(''timeout.ms'', JNumber 1000)] = Inr (Some ?c, None)"
    by code_simp
  then show ?thesis
    by (intro exI [of _ ?c]) simp
qed

section \<open>Properties of the topology decoder\<close>


lemma strictWeakOrdering_key:
  fixes f :: "'a \<Rightarrow> 'k::linorder"
  shows "strictWeakOrdering (\<lambda>a b. f a < f b)"
  by (auto simp: strictWeakOrdering_def)

lemma sortContract_key:
  fixes f :: "'a \<Rightarrow> 'k::linorder"
  assumes "sortContract sortSlice"
  shows "mset (sortSlice (\<lambda>a b. f a < f b) xs) = mset xs"
    and "sorted (map f (sortSlice (\<lambda>a b. f a < f b) xs))"
proof -
  from assms strictWeakOrdering_key [of f]
  have m: "mset (sortSlice (\<lambda>a b. f a < f b) xs) = mset xs"
    and s: "sorted_wrt (\<lambda>a b. \<not> f b < f a) (sortSlice (\<lambda>a b. f a < f b) xs)"
    unfolding sortContract_def by blast+
  from m show "mset (sortSlice (\<lambda>a b. f a < f b) xs) = mset xs" .
  from s show "sorted (map f (sortSlice (\<lambda>a b. f a < f b) xs))"
    by (simp add: sorted_map not_less)
qed

lemma mset_insertLess: "mset (insertLess lessFn x ys) = add_mset x (mset ys)"
  by (induction ys) simp_all

lemma set_insertLess: "set (insertLess lessFn x ys) = insert x (set ys)"
  by (induction ys) auto

lemma sorted_insertLess:
  assumes "strictWeakOrdering lessFn" and "sorted_wrt (\<lambda>a b. \<not> lessFn b a) ys"
  shows "sorted_wrt (\<lambda>a b. \<not> lessFn b a) (insertLess lessFn x ys)"
  using assms(2)
proof (induction ys)
  case Nil
  then show ?case by simp
next
  case (Cons y ys)
  from assms(1) have irr: "\<And>a. \<not> lessFn a a"
    and tr: "\<And>a b c. lessFn a b \<Longrightarrow> lessFn b c \<Longrightarrow> lessFn a c"
    and ntr: "\<And>a b c. \<not> lessFn a b \<Longrightarrow> \<not> lessFn b c \<Longrightarrow> \<not> lessFn a c"
    unfolding strictWeakOrdering_def by blast+
  show ?case
  proof (cases "lessFn y x")
    case True
    then have "\<not> lessFn x y" using irr tr by blast
    with True Cons show ?thesis
      by (auto simp: set_insertLess)
  next
    case False
    from Cons.prems have "\<forall>z \<in> set ys. \<not> lessFn z y" by simp
    with False have "\<forall>z \<in> set ys. \<not> lessFn z x" using ntr by blast
    with False Cons.prems show ?thesis by simp
  qed
qed

lemma insertionSort_contract: "sortContract insertionSort"
proof -
  have "mset (insertionSort lessFn xs) = mset xs" for lessFn :: "'a \<Rightarrow> 'a \<Rightarrow> bool" and xs
    by (induction xs) (simp_all add: insertionSort_def mset_insertLess)
  moreover have "sorted_wrt (\<lambda>a b. \<not> lessFn b a) (insertionSort lessFn xs)"
    if "strictWeakOrdering lessFn" for lessFn :: "'a \<Rightarrow> 'a \<Rightarrow> bool" and xs
  proof (induction xs)
    case Nil
    show ?case by (simp add: insertionSort_def)
  next
    case (Cons x xs)
    from sorted_insertLess [OF that Cons] show ?case
      by (simp add: insertionSort_def)
  qed
  ultimately show ?thesis
    unfolding sortContract_def by blast
qed

lemma NewMetadataResponse_Some:
  assumes "NewMetadataResponse sortTopics sortPartitions g a payload = Inr (Some r, err)"
  shows "\<exists>raw e. decodeMetadataResponse g a payload = Inr (raw, e)
           \<and> r = sortMetadataResponse sortTopics sortPartitions raw
           \<and> err = map_option FromErrorCode e"
  using assms
  by (auto simp: NewMetadataResponse_def seq_Inr_iff split: if_splits)

lemma distinct_map_sint:
  "distinct (map (\<lambda>p. sint (f p :: 32 word)) xs) = distinct (map f xs)"
proof -
  have "map (\<lambda>p. sint (f p)) xs = map sint (map f xs)" by simp
  moreover have "inj_on (sint :: 32 word \<Rightarrow> int) A" for A
    by (auto simp: inj_on_def intro: signed_word_eqI)
  ultimately show ?thesis by (simp only: distinct_map) simp
qed

lemma sortMetadataResponse_topics:
  "TopicMetadatas (sortMetadataResponse sortTopics sortPartitions raw) =
     map (\<lambda>p. p\<lparr>PartitionMetadatas :=
                  sortPartitions (\<lambda>a b. sint (PartitionID a) < sint (PartitionID b))
                    (PartitionMetadatas p)\<rparr>)
       (sortTopics (\<lambda>a b. TopicName a < TopicName b) (TopicMetadatas raw))"
  by (simp add: sortMetadataResponse_def)

lemma recordErrorCode_Some [simp]: "recordErrorCode g a (Some e) c = Some e"
  by (simp add: recordErrorCode_def)

lemma foldl_recordErrorCode_Some [simp]: "foldl (recordErrorCode g a) (Some e) cs = Some e"
  by (induction cs) simp_all








text \<open>
  C3. When the buffer has a leading \<open>uint32\<close> and that length plus 4 differs from
  \<open>len(payload)\<close>, \<open>NewMetadataResponse\<close> returns the length-mismatch error and a \<open>nil\<close>
  response, whatever follows the first four bytes.
\<close>

theorem NewMetadataResponse_length_mismatch:
  assumes "Uint32 (elems payload) = Inr totalLength"
    and "unat totalLength + 4 \<noteq> length (elems payload)"
  shows "NewMetadataResponse sortTopics sortPartitions g a payload
           = Inr (None, Some (LengthDidNotMatch (unat totalLength + 4) (length (elems payload))))"
  using assms by (simp add: NewMetadataResponse_def seq_simps)

theorem NewMetadataResponse_length_mismatch_witness:
  "Uint32 (elems \<lparr>elems = [0, 0, 0, 9], spare = []\<rparr>) = Inr 9
   \<and> NewMetadataResponse insertionSort insertionSort sampleRegistry 9
        \<lparr>elems = [0, 0, 0, 9], spare = []\<rparr>
       = Inr (None, Some (LengthDidNotMatch 13 4))"
proof -
  let ?p = "\<lparr>elems = [0, 0, 0, 9], spare = []\<rparr>"
  have h: "Uint32 (elems ?p) = Inr 9"
    by (simp add: Uint32_def)
  have n: "unat (9 :: 32 word) + 4 \<noteq> length (elems ?p)"
    by simp
  from NewMetadataResponse_length_mismatch
    [OF h n, of insertionSort insertionSort sampleRegistry 9] h
  show ?thesis
    by simp
qed

text \<open>
  C2 (as stated, refuted). Two topics of the same name are decoded and kept side by side:
  the result is in ascending order, but not strictly. The two topics are equal, so
  every rearrangement of them is this list.
\<close>

theorem NewMetadataResponse_strict_order_counterexample:
  "NewMetadataResponse insertionSort insertionSort sampleRegistry 9 duplicateTopicsPayload
     = Inr (Some duplicateTopicsSnapshot, None)
   \<and> \<not> sorted_wrt (<) (map TopicName (TopicMetadatas duplicateTopicsSnapshot))"
proof -
  have "NewMetadataResponse insertionSort insertionSort sampleRegistry 9 duplicateTopicsPayload
          = Inr (Some duplicateTopicsSnapshot, None)"
    by code_simp
  moreover have "\<not> sorted_wrt (<) (map TopicName (TopicMetadatas duplicateTopicsSnapshot))"
    by (simp add: duplicateTopicsSnapshot_def)
  ultimately show ?thesis by simp
qed

text \<open>
  C2 (amended). Whenever \<open>NewMetadataResponse\<close> returns a response, its topics are in
  ascending order of \<open>TopicName\<close> and the partitions of every topic in ascending order of
  \<open>PartitionID\<close>, whatever the order on the wire; the order is strict exactly when the
  names, respectively the partition IDs of the topic, are pairwise different. The topics
  returned are those on the wire, each with the partitions it had there. This holds for
  every \<open>sort.Slice\<close> that keeps the library's contract.
\<close>

theorem NewMetadataResponse_sorted:
  assumes "sortContract sortTopics" and "sortContract sortPartitions"
    and "NewMetadataResponse sortTopics sortPartitions g a payload = Inr (Some r, err)"
  shows "sorted (map TopicName (TopicMetadatas r))
     \<and> (sorted_wrt (<) (map TopicName (TopicMetadatas r))
          \<longleftrightarrow> distinct (map TopicName (TopicMetadatas r)))
     \<and> (\<forall>t \<in> set (TopicMetadatas r).
          sorted (map (\<lambda>p. sint (PartitionID p)) (PartitionMetadatas t))
          \<and> (sorted_wrt (<) (map (\<lambda>p. sint (PartitionID p)) (PartitionMetadatas t))
               \<longleftrightarrow> distinct (map PartitionID (PartitionMetadatas t))))
     \<and> (\<exists>raw e. decodeMetadataResponse g a payload = Inr (raw, e)
          \<and> mset (map (\<lambda>t. (TopicErrorCode t, TopicName t, mset (PartitionMetadatas t)))
                 (TopicMetadatas r))
            = mset (map (\<lambda>t. (TopicErrorCode t, TopicName t, mset (PartitionMetadatas t)))
                 (TopicMetadatas raw)))"
proof -
  from NewMetadataResponse_Some [OF assms(3)] obtain raw e where
    raw: "decodeMetadataResponse g a payload = Inr (raw, e)"
    and r: "r = sortMetadataResponse sortTopics sortPartitions raw"
    by blast
  let ?ts = "sortTopics (\<lambda>a b. TopicName a < TopicName b) (TopicMetadatas raw)"
  let ?sp = "\<lambda>p. p\<lparr>PartitionMetadatas :=
                  sortPartitions (\<lambda>a b. sint (PartitionID a) < sint (PartitionID b))
                    (PartitionMetadatas p)\<rparr>"
  note st = sortContract_key [OF assms(1), of TopicName]
  note sp = sortContract_key [OF assms(2), of "\<lambda>p. sint (PartitionID p)"]
  have ts: "TopicMetadatas r = map ?sp ?ts"
    by (simp add: r sortMetadataResponse_topics)
  have names: "map TopicName (TopicMetadatas r) = map TopicName ?ts"
    by (simp add: ts)
  have 1: "sorted (map TopicName (TopicMetadatas r))"
    unfolding names by (rule st(2))
  have 2: "sorted_wrt (<) (map TopicName (TopicMetadatas r))
          \<longleftrightarrow> distinct (map TopicName (TopicMetadatas r))"
    using 1 by (simp add: strict_sorted_iff)
  have 3: "sorted (map (\<lambda>p. sint (PartitionID p)) (PartitionMetadatas t))
          \<and> (sorted_wrt (<) (map (\<lambda>p. sint (PartitionID p)) (PartitionMetadatas t))
               \<longleftrightarrow> distinct (map PartitionID (PartitionMetadatas t)))"
    if "t \<in> set (TopicMetadatas r)" for t
  proof -
    from that ts obtain t0 where t: "t = ?sp t0" by auto
    have s: "sorted (map (\<lambda>p. sint (PartitionID p)) (PartitionMetadatas t))"
      unfolding t by (simp add: sp(2))
    then show ?thesis
      by (simp add: strict_sorted_iff distinct_map_sint)
  qed
  have "map (\<lambda>t. (TopicErrorCode t, TopicName t, mset (PartitionMetadatas t))) (TopicMetadatas r)
      = map (\<lambda>t. (TopicErrorCode t, TopicName t, mset (PartitionMetadatas t))) ?ts"
    by (simp add: ts sp(1))
  moreover have "mset (map (\<lambda>t. (TopicErrorCode t, TopicName t, mset (PartitionMetadatas t))) ?ts)
      = mset (map (\<lambda>t. (TopicErrorCode t, TopicName t, mset (PartitionMetadatas t)))
           (TopicMetadatas raw))"
    using st(1) [of "TopicMetadatas raw"] by (metis mset_map)
  ultimately have 4: "mset (map (\<lambda>t. (TopicErrorCode t, TopicName t, mset (PartitionMetadatas t)))
                 (TopicMetadatas r))
            = mset (map (\<lambda>t. (TopicErrorCode t, TopicName t, mset (PartitionMetadatas t)))
                 (TopicMetadatas raw))"
    by simp
  from 1 2 3 4 raw show ?thesis by blast
qed

theorem NewMetadataResponse_sorted_witness:
  "NewMetadataResponse insertionSort insertionSort sampleRegistry 9 unorderedPayload
     = Inr (Some orderedSnapshot, None)
   \<and> sorted_wrt (<) (map TopicName (TopicMetadatas orderedSnapshot))
   \<and> sorted_wrt (<) (map (\<lambda>p. sint (PartitionID p))
          (PartitionMetadatas (last (TopicMetadatas orderedSnapshot))))
   \<and> map PartitionID (PartitionMetadatas (last (TopicMetadatas orderedSnapshot))) = [0, 1, 2]"
proof -
  have h: "NewMetadataResponse insertionSort insertionSort sampleRegistry 9 unorderedPayload
             = Inr (Some orderedSnapshot, None)"
    by code_simp
  let ?t = "last (TopicMetadatas orderedSnapshot)"
  have t: "?t \<in> set (TopicMetadatas orderedSnapshot)"
    by (simp add: orderedSnapshot_def)
  have d: "distinct (map TopicName (TopicMetadatas orderedSnapshot))"
    "distinct (map PartitionID (PartitionMetadatas ?t))"
    "map PartitionID (PartitionMetadatas ?t) = [0, 1, 2]"
    by (simp_all add: orderedSnapshot_def)
  from NewMetadataResponse_sorted [OF insertionSort_contract insertionSort_contract h] d t h
  show ?thesis
    by blast
qed




section \<open>Properties of the fetch decoder\<close>

lemma readMessages_count:
  assumes "readMessages payload cnt offset = Inr (ms, offset')"
  shows "length ms \<le> cnt
       \<and> (length ms = cnt \<or> (ms \<noteq> [] \<and> offset' = length (elems payload)))"
  using assms
proof (induction cnt arbitrary: offset ms)
  case 0
  then show ?case by simp
next
  case (Suc cnt)
  from Suc.prems obtain m o1 where m: "readMessage payload offset = Inr (m, o1)"
    and rest: "(if o1 = length (elems payload) then Inr ([m], o1)
                else seq (readMessages payload cnt o1) (\<lambda>(ms, offset). Inr (m # ms, offset)))
               = Inr (ms, offset')"
    by (auto simp: seq_Inr_iff)
  show ?case
  proof (cases "o1 = length (elems payload)")
    case True
    with rest show ?thesis by auto
  next
    case False
    with rest obtain ms' where r: "readMessages payload cnt o1 = Inr (ms', offset')"
      and ms: "ms = m # ms'"
      by (auto simp: seq_Inr_iff)
    from Suc.IH [OF r] show ?thesis by (auto simp: ms)
  qed
qed

lemma readTopicData_messages:
  assumes "readTopicData payload offset = Inr (d, offset')"
  shows "0 \<le> sint (MessageSetSize d)
       \<and> uint16_at payload (offset + 4) = Inr (ErrorCode d)
       \<and> (\<exists>ms. readMessages payload (nat (sint (MessageSetSize d))) (offset + 18)
                  = Inr (ms, offset')
              \<and> MessageSet d
                  = ms @ replicate (nat (sint (MessageSetSize d)) - length ms) zeroMessage)"
  using assms
  by (auto simp: readTopicData_def seq_Inr_iff Let_def add.commute split: if_splits)

lemma readTopicDatas_elem:
  assumes "readTopicDatas payload cnt offset = Inr (ds, offset')" and "d \<in> set ds"
  shows "\<exists>off off'. readTopicData payload off = Inr (d, off')"
  using assms
proof (induction cnt arbitrary: offset ds)
  case 0
  then show ?case by simp
next
  case (Suc cnt)
  from Suc.prems(1) obtain d0 o1 ds' where d0: "readTopicData payload offset = Inr (d0, o1)"
    and rest: "readTopicDatas payload cnt o1 = Inr (ds', offset')" and ds: "ds = d0 # ds'"
    by (auto simp: seq_Inr_iff)
  from Suc.prems(2) ds consider "d = d0" | "d \<in> set ds'" by auto
  then show ?case
  proof cases
    case 1
    with d0 show ?thesis by blast
  next
    case 2
    from Suc.IH [OF rest 2] show ?thesis .
  qed
qed

lemma readFetchTopic_elem:
  assumes "readFetchTopic payload offset = Inr (t, offset')" and "d \<in> set (TopicDatas t)"
  shows "\<exists>off off'. readTopicData payload off = Inr (d, off')"
  using assms
  by (auto simp: readFetchTopic_def seq_Inr_iff Let_def dest: readTopicDatas_elem)

lemma readFetchTopics_elem:
  assumes "readFetchTopics payload cnt offset = Inr (ts, offset')"
    and "t \<in> set ts" and "d \<in> set (TopicDatas t)"
  shows "\<exists>off off'. readTopicData payload off = Inr (d, off')"
  using assms
proof (induction cnt arbitrary: offset ts)
  case 0
  then show ?case by simp
next
  case (Suc cnt)
  from Suc.prems(1) obtain t0 o1 ts' where t0: "readFetchTopic payload offset = Inr (t0, o1)"
    and rest: "readFetchTopics payload cnt o1 = Inr (ts', offset')" and ts: "ts = t0 # ts'"
    by (auto simp: seq_Inr_iff)
  from Suc.prems(2) ts consider "t = t0" | "t \<in> set ts'" by auto
  then show ?case
  proof cases
    case 1
    with t0 Suc.prems(3) show ?thesis by (blast dest: readFetchTopic_elem)
  next
    case 2
    from Suc.IH [OF rest 2 Suc.prems(3)] show ?thesis .
  qed
qed

lemma DecodeFetchResponse_elem:
  assumes "DecodeFetchResponse payload = Inr (r, err)"
    and "t \<in> set r" and "d \<in> set (TopicDatas t)"
  shows "\<exists>off off'. readTopicData payload off = Inr (d, off')"
  using assms
  by (auto simp: DecodeFetchResponse_def seq_Inr_iff Let_def dest: readFetchTopics_elem)

lemma length_take_drop: "k + n \<le> length xs \<Longrightarrow> length (take n (drop k xs)) = n"
  by simp

lemma readBytes_cases:
  assumes "uint32_at payload offset = Inr len"
  shows "readBytes payload offset =
     (if len = - 1 then Inr (None, offset + 4)
      else if sint len < 0 then Inl MakeSliceLenOutOfRange
      else if offset + 4 + nat (sint len) \<le> length (elems payload) + length (spare payload)
      then Inr (Some (take (nat (sint len)) (drop (offset + 4) (elems payload @ spare payload))),
                offset + 4 + nat (sint len))
      else Inl SliceBoundsOutOfRange)"
  using assms by (simp add: readBytes_def seq_simps Let_def subslice_def)

lemma earlyStop_decoded:
  "DecodeFetchResponse \<lparr>elems = fetchHead @ fetchMessage, spare = []\<rparr>
     = Inr ([\<lparr>TopicName_f = [116], TopicDatas = [earlyStopData]\<rparr>], None)"
  by code_simp

subsection \<open>Decoding a buffer written in the wire layout\<close>

lemma Uint16_PutUint16: "Uint16 (PutUint16 v @ r) = Inr v"
proof -
  have "ucast (ucast v :: byte) OR push_bit 8 (ucast (ucast (drop_bit 8 v) :: byte)) = v"
    (is "?w = v")
  proof (rule bit_word_eqI)
    fix n :: nat
    assume "n < LENGTH(16)"
    then consider "n < 8" | "8 \<le> n" "n < 16" by fastforce
    then show "bit ?w n = bit v n"
      by cases (auto simp: bit_simps)
  qed
  then show ?thesis
    by (simp add: Uint16_def PutUint16_def)
qed

lemma Uint32_PutUint32: "Uint32 (PutUint32 v @ r) = Inr v"
proof -
  have "ucast (ucast v :: byte) OR push_bit 8 (ucast (ucast (drop_bit 8 v) :: byte))
        OR push_bit 16 (ucast (ucast (drop_bit 16 v) :: byte))
        OR push_bit 24 (ucast (ucast (drop_bit 24 v) :: byte)) = v" (is "?w = v")
  proof (rule bit_word_eqI)
    fix n :: nat
    assume "n < LENGTH(32)"
    then consider "n < 8" | "8 \<le> n" "n < 16" | "16 \<le> n" "n < 24" | "24 \<le> n" "n < 32"
      by fastforce
    then show "bit ?w n = bit v n"
      by cases (auto simp: bit_simps)
  qed
  then show ?thesis
    by (simp add: Uint32_def PutUint32_def)
qed

lemma Uint64_PutUint64: "Uint64 (PutUint64 v @ r) = Inr v"
proof -
  have "ucast (ucast v :: byte) OR push_bit 8 (ucast (ucast (drop_bit 8 v) :: byte))
        OR push_bit 16 (ucast (ucast (drop_bit 16 v) :: byte))
        OR push_bit 24 (ucast (ucast (drop_bit 24 v) :: byte))
        OR push_bit 32 (ucast (ucast (drop_bit 32 v) :: byte))
        OR push_bit 40 (ucast (ucast (drop_bit 40 v) :: byte))
        OR push_bit 48 (ucast (ucast (drop_bit 48 v) :: byte))
        OR push_bit 56 (ucast (ucast (drop_bit 56 v) :: byte)) = v" (is "?w = v")
  proof (rule bit_word_eqI)
    fix n :: nat
    assume "n < LENGTH(64)"
    then consider "n < 8" | "8 \<le> n" "n < 16" | "16 \<le> n" "n < 24" | "24 \<le> n" "n < 32"
      | "32 \<le> n" "n < 40" | "40 \<le> n" "n < 48" | "48 \<le> n" "n < 56" | "56 \<le> n" "n < 64"
      by fastforce
    then show "bit ?w n = bit v n"
      by cases (auto simp: bit_simps)
  qed
  then show ?thesis
    by (simp add: Uint64_def PutUint64_def)
qed

lemma length_word32:
  assumes "n < 2 ^ 31"
  shows "(word_of_nat n :: 32 word) \<noteq> - 1" and "sint (word_of_nat n :: 32 word) = int n"
proof -
  show s: "sint (word_of_nat n :: 32 word) = int n"
    using assms by (simp add: signed_of_nat signed_take_bit_int_eq_self)
  show "(word_of_nat n :: 32 word) \<noteq> - 1"
  proof
    assume "(word_of_nat n :: 32 word) = - 1"
    then have "sint (word_of_nat n :: 32 word) = - 1" by simp
    with s show False by simp
  qed
qed

lemma length_word16:
  assumes "n < 2 ^ 16"
  shows "unat (word_of_nat n :: 16 word) = n"
  using assms by (simp add: unat_of_nat)

lemma length_Put [simp]:
  "length (PutUint16 a) = 2" "length (PutUint32 b) = 4" "length (PutUint64 c) = 8"
  by (simp_all add: PutUint16_def PutUint32_def PutUint64_def)

lemma Put_nonempty [simp]:
  "PutUint16 a \<noteq> []" "PutUint32 b \<noteq> []" "PutUint64 c \<noteq> []"
  by (simp_all add: PutUint16_def PutUint32_def PutUint64_def)

lemma drop_eq_appendD:
  assumes "drop off xs = a @ r"
  shows "drop (off + length a) xs = r" and "a \<noteq> [] \<Longrightarrow> off + length a \<le> length xs"
proof -
  have "drop (off + length a) xs = drop (length a) (drop off xs)"
    by (simp add: add.commute)
  then show "drop (off + length a) xs = r"
    by (simp add: assms)
  have "length (drop off xs) = length a + length r"
    by (simp add: assms)
  then show "off + length a \<le> length xs" if "a \<noteq> []"
    using that by (cases a) auto
qed

lemma from_offset_wire:
  assumes "drop off (elems P) = a @ r" and "a \<noteq> []"
  shows "from_offset P off = Inr (a @ r)"
  using drop_eq_appendD(2) [OF assms] assms(1) by (simp add: from_offset_def)

lemma uint16_at_wire: "drop off (elems P) = PutUint16 v @ r \<Longrightarrow> uint16_at P off = Inr v"
  by (simp add: uint16_at_def from_offset_wire seq_simps Uint16_PutUint16)

lemma uint32_at_wire: "drop off (elems P) = PutUint32 v @ r \<Longrightarrow> uint32_at P off = Inr v"
  by (simp add: uint32_at_def from_offset_wire seq_simps Uint32_PutUint32)

lemma uint64_at_wire: "drop off (elems P) = PutUint64 v @ r \<Longrightarrow> uint64_at P off = Inr v"
  by (simp add: uint64_at_def from_offset_wire seq_simps Uint64_PutUint64)

lemma index_wire:
  assumes "drop off (elems P) = b # r"
  shows "index P off = Inr b"
proof -
  from assms have "off < length (elems P)"
    by (metis drop_all list.distinct(1) not_le)
  moreover from assms have "elems P ! off = b"
    by (metis nth_via_drop)
  ultimately show ?thesis by (simp add: index_def)
qed

lemma subslice_wire:
  assumes "drop off (elems P) = a @ r" and "off \<le> length (elems P)"
  shows "subslice P off (off + length a) = Inr a"
proof -
  have "length (drop off (elems P)) = length a + length r"
    by (simp add: assms(1))
  with assms(2) have le: "off + length a \<le> length (elems P)"
    by simp
  have "drop off (elems P @ spare P) = a @ r @ spare P"
    using assms by simp
  then have "take (length a) (drop off (elems P @ spare P)) = a"
    by (simp del: drop_append)
  with le show ?thesis
    by (simp add: subslice_def del: drop_append take_append)
qed

lemma length_wireBytes:
  "length (wireBytes b) = (case b of None \<Rightarrow> 4 | Some bs \<Rightarrow> 4 + length bs)"
  by (simp add: wireBytes_def split: option.split)

lemma readBytes_wire:
  assumes d: "drop off (elems P) = wireBytes b @ r" and f: "fitsInt32 b"
  shows "readBytes P off = Inr (b, off + length (wireBytes b))"
proof (cases b)
  case None
  with d have "uint32_at P off = Inr (- 1)"
    by (simp add: wireBytes_def uint32_at_wire)
  with None show ?thesis
    by (simp add: readBytes_cases length_wireBytes)
next
  case (Some bs)
  with f have n: "length bs < 2 ^ 31" by (simp add: fitsInt32_def)
  let ?v = "word_of_nat (length bs) :: 32 word"
  from d Some have d': "drop off (elems P) = PutUint32 ?v @ (bs @ r)"
    by (simp add: wireBytes_def)
  then have u: "uint32_at P off = Inr ?v"
    by (rule uint32_at_wire)
  from drop_eq_appendD [OF d'] have d2: "drop (off + 4) (elems P) = bs @ r"
    and le: "off + 4 \<le> length (elems P)"
    by simp_all
  from subslice_wire [OF d2 le] have s: "subslice P (off + 4) (off + 4 + length bs) = Inr bs" .
  from length_word32 [OF n] have v: "?v \<noteq> - 1" "sint ?v = int (length bs)" .
  from u v s Some show ?thesis
    by (simp add: readBytes_def seq_simps Let_def length_wireBytes)
qed

lemma length_wireMessage:
  "length (wireMessage m) = 18 + length (wireBytes (Key m)) + length (wireBytes (Value m))"
  by (simp add: wireMessage_def)

lemma drop_eq_ConsD: "drop off xs = b # r \<Longrightarrow> drop (off + 1) xs = r"
  using drop_eq_appendD(1) [of off xs "[b]" r] by simp

lemma readMessage_wire:
  assumes d: "drop off (elems P) = wireMessage m @ r" and wf: "wellFormed m"
  shows "readMessage P off = Inr (m, off + length (wireMessage m))"
proof -
  let ?k = "wireBytes (Key m)" and ?v = "wireBytes (Value m)"
  from d have d0: "drop off (elems P) = PutUint64 (Offset m) @ (PutUint32 (MessageSize m)
      @ (PutUint32 (Crc m) @ (MagicByte m # (Attributes m # (?k @ (?v @ r))))))"
    by (simp add: wireMessage_def)
  note d1 = drop_eq_appendD(1) [OF d0, unfolded length_Put]
  note d2 = drop_eq_appendD(1) [OF d1, unfolded length_Put]
  note d3 = drop_eq_appendD(1) [OF d2, unfolded length_Put]
  note d4 = drop_eq_ConsD [OF d3]
  note d5 = drop_eq_ConsD [OF d4]
  note d6 = drop_eq_appendD(1) [OF d5]
  from wf have fk: "fitsInt32 (Key m)" and fv: "fitsInt32 (Value m)"
    by (simp_all add: wellFormed_def)
  note r1 = uint64_at_wire [OF d0] and r2 = uint32_at_wire [OF d1] and r3 = uint32_at_wire [OF d2]
    and r4 = index_wire [OF d3] and r5 = index_wire [OF d4]
    and r6 = readBytes_wire [OF d5 fk] and r7 = readBytes_wire [OF d6 fv]
  have "readMessage P off =
      Inr (\<lparr>Offset = Offset m, MessageSize = MessageSize m, Crc = Crc m,
             MagicByte = MagicByte m, Attributes = Attributes m, Key = Key m,
             Value = Value m\<rparr>, off + 8 + 4 + 4 + 1 + 1 + length ?k + length ?v)"
    by (simp only: readMessage_def Let_def seq_simps r1 r2 r3 r4 r5 r6 r7 prod.case)
  then show ?thesis
    by (simp add: length_wireMessage)
qed

lemma wireMessage_nonempty [simp]: "wireMessage m \<noteq> []"
  by (simp add: wireMessage_def)

text \<open>A read that succeeds still succeeds, with the same result, when bytes are appended to
  a buffer without spare capacity; and it never ends past the capacity.\<close>

lemma from_offset_ext:
  "from_offset P off = Inr b \<Longrightarrow> from_offset (P\<lparr>elems := elems P @ ext\<rparr>) off = Inr (b @ ext)"
  by (auto simp: from_offset_def split: if_splits)

lemma Uint16_ext: "Uint16 b = Inr v \<Longrightarrow> Uint16 (b @ ext) = Inr v"
  by (auto simp: Uint16_def nth_append split: if_splits)

lemma Uint32_ext: "Uint32 b = Inr v \<Longrightarrow> Uint32 (b @ ext) = Inr v"
  by (auto simp: Uint32_def nth_append split: if_splits)

lemma Uint64_ext: "Uint64 b = Inr v \<Longrightarrow> Uint64 (b @ ext) = Inr v"
  by (auto simp: Uint64_def nth_append split: if_splits)

lemma uint32_at_ext:
  "uint32_at P off = Inr v \<Longrightarrow> uint32_at (P\<lparr>elems := elems P @ ext\<rparr>) off = Inr v"
  by (auto simp: uint32_at_def seq_Inr_iff dest: from_offset_ext Uint32_ext)

lemma uint64_at_ext:
  "uint64_at P off = Inr v \<Longrightarrow> uint64_at (P\<lparr>elems := elems P @ ext\<rparr>) off = Inr v"
  by (auto simp: uint64_at_def seq_Inr_iff dest: from_offset_ext Uint64_ext)

lemma index_ext:
  "index P off = Inr v \<Longrightarrow> index (P\<lparr>elems := elems P @ ext\<rparr>) off = Inr v"
  by (auto simp: index_def nth_append split: if_splits)

lemma subslice_ext:
  "spare P = [] \<Longrightarrow> subslice P lo hi = Inr x
     \<Longrightarrow> subslice (P\<lparr>elems := elems P @ ext\<rparr>) lo hi = Inr x"
  by (auto simp: subslice_def split: if_splits)

lemma uint32_at_bound: "uint32_at P off = Inr v \<Longrightarrow> off + 4 \<le> length (elems P)"
  by (auto simp: uint32_at_def seq_Inr_iff from_offset_def Uint32_def split: if_splits)

lemma readBytes_ext:
  assumes "spare P = []" and "readBytes P off = Inr x"
  shows "readBytes (P\<lparr>elems := elems P @ ext\<rparr>) off = Inr x"
proof -
  from assms(2) obtain len where len: "uint32_at P off = Inr len"
    by (auto simp: readBytes_def seq_Inr_iff)
  note len' = uint32_at_ext [OF len, of ext]
  from assms(2) show ?thesis
    unfolding readBytes_cases [OF len] readBytes_cases [OF len']
    using assms(1) by (auto split: if_splits)
qed

lemma readBytes_bound:
  assumes "readBytes P off = Inr (b, off')"
  shows "off' \<le> length (elems P) + length (spare P)"
proof -
  from assms obtain len where len: "uint32_at P off = Inr len"
    by (auto simp: readBytes_def seq_Inr_iff)
  from assms uint32_at_bound [OF len] show ?thesis
    unfolding readBytes_cases [OF len] by (auto split: if_splits)
qed

lemma readMessage_fields:
  assumes "readMessage P off = Inr (m, off')"
  shows "\<exists>o1. uint64_at P off = Inr (Offset m)
          \<and> uint32_at P (off + 8) = Inr (MessageSize m)
          \<and> uint32_at P (off + 8 + 4) = Inr (Crc m)
          \<and> index P (off + 8 + 4 + 4) = Inr (MagicByte m)
          \<and> index P (off + 8 + 4 + 4 + 1) = Inr (Attributes m)
          \<and> readBytes P (off + 8 + 4 + 4 + 1 + 1) = Inr (Key m, o1)
          \<and> readBytes P o1 = Inr (Value m, off')"
  using assms
  by (auto simp: readMessage_def seq_Inr_iff Let_def)

lemma readMessage_ext:
  assumes sp: "spare P = []" and r: "readMessage P off = Inr (m, off')"
  shows "readMessage (P\<lparr>elems := elems P @ ext\<rparr>) off = Inr (m, off')"
proof -
  let ?P = "P\<lparr>elems := elems P @ ext\<rparr>"
  from readMessage_fields [OF r] obtain o1 where
    f: "uint64_at P off = Inr (Offset m)" "uint32_at P (off + 8) = Inr (MessageSize m)"
      "uint32_at P (off + 8 + 4) = Inr (Crc m)" "index P (off + 8 + 4 + 4) = Inr (MagicByte m)"
      "index P (off + 8 + 4 + 4 + 1) = Inr (Attributes m)"
      "readBytes P (off + 8 + 4 + 4 + 1 + 1) = Inr (Key m, o1)"
      "readBytes P o1 = Inr (Value m, off')"
    by blast
  note g = uint64_at_ext [OF f(1), of ext] uint32_at_ext [OF f(2), of ext]
    uint32_at_ext [OF f(3), of ext] index_ext [OF f(4), of ext] index_ext [OF f(5), of ext]
    readBytes_ext [OF sp f(6), of ext] readBytes_ext [OF sp f(7), of ext]
  have "readMessage ?P off =
      Inr (\<lparr>Offset = Offset m, MessageSize = MessageSize m, Crc = Crc m,
             MagicByte = MagicByte m, Attributes = Attributes m, Key = Key m,
             Value = Value m\<rparr>, off')"
    by (simp only: readMessage_def Let_def seq_simps g prod.case)
  then show ?thesis by simp
qed

lemma readMessage_bound:
  assumes "readMessage P off = Inr (m, off')"
  shows "off' \<le> length (elems P) + length (spare P)"
  using readMessage_fields [OF assms] by (blast dest: readBytes_bound)

lemma readMessage_truncated:
  assumes d: "drop off (elems P) = take t (wireMessage m)"
    and t: "0 < t" "t < length (wireMessage m)"
    and sp: "spare P = []" and wf: "wellFormed m"
  shows "\<exists>e. readMessage P off = Inl e"
proof (cases "readMessage P off")
  case (Inl e)
  then show ?thesis by blast
next
  case (Inr x)
  obtain m' off' where x: "x = (m', off')" by (cases x)
  from d t have "drop off (elems P) \<noteq> []" by auto
  then have off: "off < length (elems P)" by simp
  have "length (drop off (elems P)) = t"
    using t by (simp add: d)
  with off have len: "length (elems P) = off + t" by simp
  let ?P = "P\<lparr>elems := elems P @ drop t (wireMessage m)\<rparr>"
  have "drop off (elems ?P) = wireMessage m @ []"
    using off d by simp
  from readMessage_wire [OF this wf]
  have full: "readMessage ?P off = Inr (m, off + length (wireMessage m))" .
  from Inr x have r: "readMessage P off = Inr (m', off')" by simp
  from readMessage_ext [OF sp r, of "drop t (wireMessage m)"] full
  have "off' = off + length (wireMessage m)" by auto
  moreover from readMessage_bound [OF r] sp len
  have "off' \<le> off + t" by simp
  ultimately show ?thesis using t by simp
qed

lemma seq_Inr_id [simp]: "seq m Inr = m"
  by (cases m) (simp_all add: seq_simps)

lemma seq_assoc: "seq (seq m f) g = seq m (\<lambda>x. seq (f x) g)"
  by (cases m) (simp_all add: seq_simps)

lemma readMessages_wire:
  assumes "drop off (elems P) = concat (map wireMessage ms) @ r"
    and "\<forall>m \<in> set ms. wellFormed m" and "r \<noteq> []" and "length ms \<le> n"
  shows "readMessages P n off =
     seq (readMessages P (n - length ms) (off + length (concat (map wireMessage ms))))
       (\<lambda>(ms', offset). Inr (ms @ ms', offset))"
  using assms
proof (induction ms arbitrary: off n)
  case Nil
  then show ?case by simp
next
  case (Cons m ms)
  from Cons.prems(4) obtain n' where n: "n = Suc n'" and le: "length ms \<le> n'"
    by (cases n) auto
  from Cons.prems(1) have d: "drop off (elems P)
      = wireMessage m @ (concat (map wireMessage ms) @ r)"
    by simp
  from Cons.prems(2) have wf: "wellFormed m" and wfs: "\<forall>m \<in> set ms. wellFormed m"
    by simp_all
  let ?o = "off + length (wireMessage m)"
  have m: "readMessage P off = Inr (m, ?o)"
    by (rule readMessage_wire [OF d wf])
  have d': "drop ?o (elems P) = concat (map wireMessage ms) @ r"
    by (rule drop_eq_appendD(1) [OF d])
  with Cons.prems(3) have "drop ?o (elems P) \<noteq> []" by simp
  then have ne: "?o \<noteq> length (elems P)" by auto
  have step: "readMessages P (Suc n') off =
      seq (readMessages P n' ?o) (\<lambda>(ms', offset). Inr (m # ms', offset))"
    using m ne by (simp add: seq_simps)
  note ih = Cons.IH [OF d' wfs Cons.prems(3) le]
  show ?case
    unfolding n step ih seq_assoc
    by (simp add: seq_simps split_def add.assoc)
qed

lemma readMessages_complete:
  assumes d: "drop off (elems P) = concat (map wireMessage ms)"
    and wf: "\<forall>m \<in> set ms. wellFormed m" and ne: "ms \<noteq> []" and le: "length ms \<le> n"
  shows "readMessages P n off = Inr (ms, length (elems P))"
proof -
  let ?ms0 = "butlast ms" and ?l = "last ms"
  from ne have ms: "ms = ?ms0 @ [?l]" by simp
  let ?o = "off + length (concat (map wireMessage ?ms0))"
  have "concat (map wireMessage ms) = concat (map wireMessage ?ms0) @ wireMessage ?l"
    by (subst ms) simp
  with d have d0: "drop off (elems P) = concat (map wireMessage ?ms0) @ wireMessage ?l"
    by simp
  from wf have wf0: "\<forall>m \<in> set ?ms0. wellFormed m"
    by (meson in_set_butlastD)
  from wf ne have wfl: "wellFormed ?l" by simp
  from le ne obtain k where k: "n - length ?ms0 = Suc k"
    by (cases "n - length ?ms0") (auto simp: Suc_le_eq)
  from le have le0: "length ?ms0 \<le> n" by simp
  have d1: "drop ?o (elems P) = wireMessage ?l @ []"
    using drop_eq_appendD(1) [OF d0] by simp
  note m = readMessage_wire [OF d1 wfl]
  from drop_eq_appendD [OF d1] have "?o + length (wireMessage ?l) = length (elems P)"
    by simp
  with m have "readMessages P (Suc k) ?o = Inr ([?l], length (elems P))"
    by (simp add: seq_simps)
  with readMessages_wire [OF d0 wf0 wireMessage_nonempty le0] k
  have "readMessages P n off = Inr (?ms0 @ [?l], length (elems P))"
    by (simp add: seq_simps)
  with ms show ?thesis by simp
qed

lemma readMessages_truncated:
  assumes d: "drop off (elems P) = concat (map wireMessage ms) @ take t (wireMessage m)"
    and t: "0 < t" "t < length (wireMessage m)" and sp: "spare P = []"
    and wf: "\<forall>m \<in> set ms. wellFormed m" "wellFormed m" and lt: "length ms < n"
  shows "\<exists>e. readMessages P n off = Inl e"
proof -
  let ?o = "off + length (concat (map wireMessage ms))"
  from t have ne: "take t (wireMessage m) \<noteq> []" by auto
  from lt have le: "length ms \<le> n" by simp
  from lt obtain k where k: "n - length ms = Suc k"
    by (cases "n - length ms") auto
  have d1: "drop ?o (elems P) = take t (wireMessage m)"
    by (rule drop_eq_appendD(1) [OF d])
  from readMessage_truncated [OF d1 t sp wf(2)] obtain e where "readMessage P ?o = Inl e"
    by blast
  then have "readMessages P (Suc k) ?o = Inl e"
    by (simp add: seq_simps)
  with readMessages_wire [OF d wf(1) ne le] k show ?thesis
    by (simp add: seq_simps)
qed

lemma unat_one32: "unat (1 :: 32 word) = Suc 0"
  by simp

lemma length_wireOnePartition:
  "length (wireOnePartition name pid ec hwm n) = 0 + 4 + 2 + length name + 4 + 4 + 2 + 8 + 4"
  by (simp add: wireOnePartition_def)

lemma DecodeFetchResponse_onePartition:
  assumes e: "elems P = wireOnePartition name pid ec hwm n @ body"
    and ln: "length name < 2 ^ 16" and n0: "0 \<le> sint n"
  shows "DecodeFetchResponse P =
     seq (readMessages P (nat (sint n)) (length (wireOnePartition name pid ec hwm n)))
       (\<lambda>(ms, offset).
          Inr ([\<lparr>TopicName_f = name,
                  TopicDatas =
                    [\<lparr>Partition = pid, ErrorCode = ec, HighwaterMarkOffset = hwm,
                        MessageSetSize = n,
                        MessageSet = ms @ replicate (nat (sint n) - length ms) zeroMessage\<rparr>]\<rparr>],
               None))"
    and "drop (length (wireOnePartition name pid ec hwm n)) (elems P) = body"
proof -
  let ?L = "word_of_nat (length name) :: 16 word"
  from e have d0: "drop 0 (elems P) = PutUint32 1 @ (PutUint16 ?L @ (name @ (PutUint32 1
      @ (PutUint32 pid @ (PutUint16 ec @ (PutUint64 hwm @ (PutUint32 n @ body)))))))"
    by (simp add: wireOnePartition_def)
  note d1 = drop_eq_appendD(1) [OF d0, unfolded length_Put]
  note d2 = drop_eq_appendD(1) [OF d1, unfolded length_Put]
  note d3 = drop_eq_appendD(1) [OF d2]
  note d4 = drop_eq_appendD(1) [OF d3, unfolded length_Put]
  note d5 = drop_eq_appendD(1) [OF d4, unfolded length_Put]
  note d6 = drop_eq_appendD(1) [OF d5, unfolded length_Put]
  note d7 = drop_eq_appendD(1) [OF d6, unfolded length_Put]
  note d8 = drop_eq_appendD(1) [OF d7, unfolded length_Put]
  from d8 show "drop (length (wireOnePartition name pid ec hwm n)) (elems P) = body"
    by (simp only: length_wireOnePartition)
  from drop_eq_appendD(2) [OF d1] have le: "0 + 4 + 2 \<le> length (elems P)"
    by simp
  note r = uint32_at_wire [OF d0] uint16_at_wire [OF d1] subslice_wire [OF d2 le]
    uint32_at_wire [OF d3] uint32_at_wire [OF d4] uint16_at_wire [OF d5]
    uint64_at_wire [OF d6] uint32_at_wire [OF d7]
  from n0 have neg: "\<not> sint n < 0" by simp
  show "DecodeFetchResponse P =
     seq (readMessages P (nat (sint n)) (length (wireOnePartition name pid ec hwm n)))
       (\<lambda>(ms, offset).
          Inr ([\<lparr>TopicName_f = name,
                  TopicDatas =
                    [\<lparr>Partition = pid, ErrorCode = ec, HighwaterMarkOffset = hwm,
                        MessageSetSize = n,
                        MessageSet = ms @ replicate (nat (sint n) - length ms) zeroMessage\<rparr>]\<rparr>],
               None))"
  proof (cases "readMessages P (nat (sint n)) (0 + 4 + 2 + length name + 4 + 4 + 2 + 8 + 4)")
    case (Inl err)
    then show ?thesis
      by (simp only: DecodeFetchResponse_def Let_def seq_simps r unat_one32
          readFetchTopics.simps readFetchTopic_def length_word16 [OF ln] readTopicDatas.simps
          readTopicData_def neg if_False length_wireOnePartition)
  next
    case (Inr x)
    obtain ms o1 where x: "x = (ms, o1)" by (cases x)
    from Inr x show ?thesis
      by (simp only: DecodeFetchResponse_def Let_def seq_simps r unat_one32
          readFetchTopics.simps readFetchTopic_def length_word16 [OF ln] readTopicDatas.simps
          readTopicData_def neg if_False length_wireOnePartition prod.case)
  qed
qed

lemma fetchHead_wire: "wireOnePartition [116] 7 3 5 2 = fetchHead"
  by code_simp

lemma fetchMessage_wire: "wireMessage decodedMessage = fetchMessage"
  by code_simp

text \<open>
  C5 (as stated, refuted). The buffer declares two messages; the first is complete, the
  second lacks the last byte of its value, and the capacity is the length. The decoder
  does not return the first message: the slice expression of line 97 panics.
\<close>

theorem DecodeFetchResponse_truncated_counterexample:
  "DecodeFetchResponse \<lparr>elems = fetchHead @ fetchMessage @ take 27 fetchMessage, spare = []\<rparr>
     = Inl SliceBoundsOutOfRange"
  by code_simp

text \<open>
  C5 (amended). For a fetch response with one topic and one partition that declares more
  messages than the buffer holds: if the buffer ends exactly where a message ends, the
  decoder returns the messages of the buffer, the remaining declared slots zero-valued,
  and a \<open>nil\<close> error, whatever the spare capacity; if the buffer ends inside a message
  (after its first byte and before its last, so also inside its key or value) and has no
  spare capacity, the decoder panics and returns nothing.
\<close>

theorem DecodeFetchResponse_boundary:
  assumes "length topicName < 2 ^ 16"
    and "\<forall>m \<in> set ms. wellFormed m" and "wellFormed m"
    and "length ms < nat (sint declared)"
  shows "(ms \<noteq> [] \<longrightarrow>
           DecodeFetchResponse
             \<lparr>elems = wireOnePartition topicName partitionId errorCode hwm declared
                        @ concat (map wireMessage ms),
              spare = sp\<rparr>
           = Inr ([\<lparr>TopicName_f = topicName,
                     TopicDatas =
                       [\<lparr>Partition = partitionId, ErrorCode = errorCode,
                           HighwaterMarkOffset = hwm, MessageSetSize = declared,
                           MessageSet =
                             ms @ replicate (nat (sint declared) - length ms) zeroMessage\<rparr>]\<rparr>],
                  None))
       \<and> (0 < t \<and> t < length (wireMessage m) \<longrightarrow>
           (\<exists>e. DecodeFetchResponse
                  \<lparr>elems = wireOnePartition topicName partitionId errorCode hwm declared
                             @ concat (map wireMessage ms) @ take t (wireMessage m),
                   spare = []\<rparr>
                = Inl e))"
proof (intro conjI impI)
  let ?h = "wireOnePartition topicName partitionId errorCode hwm declared"
  from assms(4) have n0: "0 \<le> sint declared" by simp
  {
    assume ne: "ms \<noteq> []"
    let ?P = "\<lparr>elems = ?h @ concat (map wireMessage ms), spare = sp\<rparr>"
    have e: "elems ?P = ?h @ concat (map wireMessage ms)" by simp
    note dec = DecodeFetchResponse_onePartition [OF e assms(1) n0]
    from assms(4) have le: "length ms \<le> nat (sint declared)" by simp
    from readMessages_complete [OF dec(2) assms(2) ne le]
    show "DecodeFetchResponse ?P
           = Inr ([\<lparr>TopicName_f = topicName,
                     TopicDatas =
                       [\<lparr>Partition = partitionId, ErrorCode = errorCode,
                           HighwaterMarkOffset = hwm, MessageSetSize = declared,
                           MessageSet =
                             ms @ replicate (nat (sint declared) - length ms) zeroMessage\<rparr>]\<rparr>],
                  None)"
      unfolding dec(1) by (simp add: seq_simps)
  }
  {
    assume t: "0 < t \<and> t < length (wireMessage m)"
    let ?P = "\<lparr>elems = ?h @ concat (map wireMessage ms) @ take t (wireMessage m), spare = []\<rparr>"
    have e: "elems ?P = ?h @ (concat (map wireMessage ms) @ take t (wireMessage m))" by simp
    have sp: "spare ?P = []" by simp
    note dec = DecodeFetchResponse_onePartition [OF e assms(1) n0]
    from t have t1: "0 < t" and t2: "t < length (wireMessage m)" by simp_all
    from readMessages_truncated [OF dec(2) t1 t2 sp assms(2) assms(3) assms(4)]
    obtain err where "readMessages ?P (nat (sint declared)) (length ?h) = Inl err"
      by blast
    then show "\<exists>e. DecodeFetchResponse ?P = Inl e"
      unfolding dec(1) by (simp add: seq_simps)
  }
qed

theorem DecodeFetchResponse_boundary_witness:
  "DecodeFetchResponse \<lparr>elems = fetchHead @ fetchMessage, spare = []\<rparr>
     = Inr ([\<lparr>TopicName_f = [116], TopicDatas = [earlyStopData]\<rparr>], None)
   \<and> (\<exists>e. DecodeFetchResponse
            \<lparr>elems = fetchHead @ fetchMessage @ take 27 fetchMessage, spare = []\<rparr> = Inl e)"
proof -
  have wf: "\<forall>m \<in> set [decodedMessage]. wellFormed m" "wellFormed decodedMessage"
    by (simp_all add: wellFormed_def fitsInt32_def decodedMessage_def)
  have n: "length [116 :: byte] < 2 ^ 16" "length [decodedMessage] < nat (sint (2 :: 32 word))"
    by simp_all
  have t: "0 < (27 :: nat) \<and> 27 < length (wireMessage decodedMessage)"
    by (simp add: fetchMessage_wire fetchMessage_def)
  note inst = DecodeFetchResponse_boundary [OF n(1) wf n(2),
    where sp = "[]" and t = 27 and partitionId = 7 and errorCode = 3 and hwm = 5]
  from inst t show ?thesis
    by (simp add: fetchHead_wire fetchMessage_wire earlyStopData_def)
qed

subsection \<open>What a successful read says about the payload\<close>

text \<open>The big-endian readers, read backwards: the bytes they have combined are the bytes
  the writers produce for the value.\<close>

lemma PutUint16_Uint16: "Uint16 b = Inr v \<Longrightarrow> PutUint16 v = take 2 b"
proof -
  assume a: "Uint16 b = Inr v"
  then have len: "2 \<le> length b"
    and v: "v = ucast (b ! 1) OR push_bit 8 (ucast (b ! 0))"
    by (auto simp: Uint16_def split: if_splits)
  have 0: "ucast (drop_bit 8 v) = b ! 0"
    unfolding v by (rule bit_word_eqI) (auto simp: bit_simps dest: bit_imp_le_length)
  have 1: "ucast v = b ! 1"
    unfolding v by (rule bit_word_eqI) (auto simp: bit_simps dest: bit_imp_le_length)
  from len have "take 2 b = [b ! 0, b ! 1]"
    by (cases b; cases "tl b") auto
  with 0 1 show ?thesis by (simp add: PutUint16_def)
qed

lemma PutUint32_Uint32: "Uint32 b = Inr v \<Longrightarrow> PutUint32 v = take 4 b"
proof -
  assume a: "Uint32 b = Inr v"
  then have len: "4 \<le> length b"
    and v: "v = ucast (b ! 3) OR push_bit 8 (ucast (b ! 2)) OR push_bit 16 (ucast (b ! 1))
                OR push_bit 24 (ucast (b ! 0))"
    by (auto simp: Uint32_def split: if_splits)
  have 0: "ucast (drop_bit 24 v) = b ! 0"
    unfolding v by (rule bit_word_eqI) (auto simp: bit_simps dest: bit_imp_le_length)
  have 1: "ucast (drop_bit 16 v) = b ! 1"
    unfolding v by (rule bit_word_eqI) (auto simp: bit_simps dest: bit_imp_le_length)
  have 2: "ucast (drop_bit 8 v) = b ! 2"
    unfolding v by (rule bit_word_eqI) (auto simp: bit_simps dest: bit_imp_le_length)
  have 3: "ucast v = b ! 3"
    unfolding v by (rule bit_word_eqI) (auto simp: bit_simps dest: bit_imp_le_length)
  from len have "take 4 b = [b ! 0, b ! 1, b ! 2, b ! 3]"
    by (auto simp: list_eq_iff_nth_eq nth_Cons numeral_2_eq_2 numeral_3_eq_3 split: nat.splits)
  with 0 1 2 3 show ?thesis by (simp add: PutUint32_def)
qed

lemma PutUint64_Uint64: "Uint64 b = Inr v \<Longrightarrow> PutUint64 v = take 8 b"
proof -
  assume a: "Uint64 b = Inr v"
  then have len: "8 \<le> length b"
    and v: "v = ucast (b ! 7) OR push_bit 8 (ucast (b ! 6)) OR push_bit 16 (ucast (b ! 5))
                OR push_bit 24 (ucast (b ! 4)) OR push_bit 32 (ucast (b ! 3))
                OR push_bit 40 (ucast (b ! 2)) OR push_bit 48 (ucast (b ! 1))
                OR push_bit 56 (ucast (b ! 0))"
    by (auto simp: Uint64_def split: if_splits)
  have 0: "ucast (drop_bit 56 v) = b ! 0"
    unfolding v by (rule bit_word_eqI) (auto simp: bit_simps dest: bit_imp_le_length)
  have 1: "ucast (drop_bit 48 v) = b ! 1"
    unfolding v by (rule bit_word_eqI) (auto simp: bit_simps dest: bit_imp_le_length)
  have 2: "ucast (drop_bit 40 v) = b ! 2"
    unfolding v by (rule bit_word_eqI) (auto simp: bit_simps dest: bit_imp_le_length)
  have 3: "ucast (drop_bit 32 v) = b ! 3"
    unfolding v by (rule bit_word_eqI) (auto simp: bit_simps dest: bit_imp_le_length)
  have 4: "ucast (drop_bit 24 v) = b ! 4"
    unfolding v by (rule bit_word_eqI) (auto simp: bit_simps dest: bit_imp_le_length)
  have 5: "ucast (drop_bit 16 v) = b ! 5"
    unfolding v by (rule bit_word_eqI) (auto simp: bit_simps dest: bit_imp_le_length)
  have 6: "ucast (drop_bit 8 v) = b ! 6"
    unfolding v by (rule bit_word_eqI) (auto simp: bit_simps dest: bit_imp_le_length)
  have 7: "ucast v = b ! 7"
    unfolding v by (rule bit_word_eqI) (auto simp: bit_simps dest: bit_imp_le_length)
  have "take 8 b = map ((!) b) [0..<8]"
    using len by (auto simp: list_eq_iff_nth_eq)
  also have "[0..<8] = [0, 1, 2, 3, 4, 5, 6, 7::nat]"
    by (simp add: upt_rec)
  finally have "take 8 b = [b ! 0, b ! 1, b ! 2, b ! 3, b ! 4, b ! 5, b ! 6, b ! 7]"
    by simp
  with 0 1 2 3 4 5 6 7 show ?thesis by (simp add: PutUint64_def)
qed

text \<open>Every read that succeeds has found, at its offset in the backing array, the bytes
  of the layout for the value it returns.\<close>

lemma take_drop_append:
  "take (length a + length b) (drop off xs) = a @ b
   \<longleftrightarrow> take (length a) (drop off xs) = a \<and> take (length b) (drop (off + length a) xs) = b"
proof -
  let ?ys = "drop off xs"
  have t: "take (length a + length b) ?ys = take (length a) ?ys @ take (length b) (drop (length a) ?ys)"
    by (simp add: take_add)
  have d: "drop (length a) ?ys = drop (off + length a) xs"
    by (simp only: drop_drop add.commute)
  show ?thesis
  proof
    assume "take (length a + length b) ?ys = a @ b"
    with t have e: "take (length a) ?ys @ take (length b) (drop (length a) ?ys) = a @ b"
      by simp
    then have "length (take (length a) ?ys) + length (take (length b) (drop (length a) ?ys))
        = length a + length b"
      by (metis length_append)
    moreover have "length (take (length a) ?ys) \<le> length a"
      and "length (take (length b) (drop (length a) ?ys)) \<le> length b"
      by simp_all
    ultimately have "length (take (length a) ?ys) = length a" by linarith
    with e have "take (length a) ?ys = a \<and> take (length b) (drop (length a) ?ys) = b"
      by (metis append_eq_append_conv)
    then show "take (length a) ?ys = a \<and> take (length b) (drop (off + length a) xs) = b"
      unfolding d .
  next
    assume "take (length a) ?ys = a \<and> take (length b) (drop (off + length a) xs) = b"
    then show "take (length a + length b) ?ys = a @ b"
      unfolding t d by simp
  qed
qed

lemma onWire_append:
  "onWire P off (a @ b) \<longleftrightarrow> onWire P off a \<and> onWire P (off + length a) b"
  using take_drop_append [of a b off "elems P @ spare P"]
  unfolding onWire_def by (simp only: length_append)

lemma onWire_bound:
  assumes "onWire P off bs" and "bs \<noteq> []"
  shows "off + length bs \<le> length (elems P) + length (spare P)"
proof -
  from assms(1) have "length (take (length bs) (drop off (elems P @ spare P))) = length bs"
    unfolding onWire_def by simp
  with assms(2) show ?thesis by (cases bs) auto
qed

lemma onWire_take:
  assumes "off + n \<le> length (elems P) + length (spare P)"
  shows "onWire P off (take n (drop off (elems P @ spare P)))"
proof -
  have l: "length (take n (drop off (elems P @ spare P))) = n"
    using length_take_drop [of off n "elems P @ spare P"] assms
    by (simp only: length_append)
  show ?thesis unfolding onWire_def l ..
qed

lemma onWire_elems:
  assumes "off + length bs \<le> length (elems P)"
    and "take (length bs) (drop off (elems P)) = bs"
  shows "onWire P off bs"
  using assms unfolding onWire_def by auto

lemma uint16_at_onWire:
  assumes "uint16_at P off = Inr v"
  shows "onWire P off (PutUint16 v)" and "off + 2 \<le> length (elems P)"
proof -
  from assms have o: "off \<le> length (elems P)" and u: "Uint16 (drop off (elems P)) = Inr v"
    by (auto simp: uint16_at_def from_offset_def seq_Inr_iff split: if_splits)
  from u have l: "2 \<le> length (drop off (elems P))"
    by (auto simp: Uint16_def split: if_splits)
  with o show "off + 2 \<le> length (elems P)" by simp
  with PutUint16_Uint16 [OF u] show "onWire P off (PutUint16 v)"
    by (intro onWire_elems) simp_all
qed

lemma uint32_at_onWire:
  assumes "uint32_at P off = Inr v"
  shows "onWire P off (PutUint32 v)" and "off + 4 \<le> length (elems P)"
proof -
  from assms have o: "off \<le> length (elems P)" and u: "Uint32 (drop off (elems P)) = Inr v"
    by (auto simp: uint32_at_def from_offset_def seq_Inr_iff split: if_splits)
  from u have l: "4 \<le> length (drop off (elems P))"
    by (auto simp: Uint32_def split: if_splits)
  with o show "off + 4 \<le> length (elems P)" by simp
  with PutUint32_Uint32 [OF u] show "onWire P off (PutUint32 v)"
    by (intro onWire_elems) simp_all
qed

lemma uint64_at_onWire:
  assumes "uint64_at P off = Inr v"
  shows "onWire P off (PutUint64 v)" and "off + 8 \<le> length (elems P)"
proof -
  from assms have o: "off \<le> length (elems P)" and u: "Uint64 (drop off (elems P)) = Inr v"
    by (auto simp: uint64_at_def from_offset_def seq_Inr_iff split: if_splits)
  from u have l: "8 \<le> length (drop off (elems P))"
    by (auto simp: Uint64_def split: if_splits)
  with o show "off + 8 \<le> length (elems P)" by simp
  with PutUint64_Uint64 [OF u] show "onWire P off (PutUint64 v)"
    by (intro onWire_elems) simp_all
qed

lemma index_onWire:
  assumes "index P off = Inr b"
  shows "onWire P off [b]" and "off + 1 \<le> length (elems P)"
proof -
  from assms have o: "off < length (elems P)" and b: "b = elems P ! off"
    by (auto simp: index_def split: if_splits)
  from o show "off + 1 \<le> length (elems P)" by simp
  from o have "drop off (elems P) = b # drop (Suc off) (elems P)"
    unfolding b by (rule Cons_nth_drop_Suc [symmetric])
  with o show "onWire P off [b]"
    by (intro onWire_elems) simp_all
qed

lemma word_of_nat_sint32:
  "0 \<le> sint (v :: 32 word) \<Longrightarrow> word_of_nat (nat (sint v)) = v"
  by simp

lemma sint_length_bound: "0 \<le> sint (v :: 32 word) \<Longrightarrow> nat (sint v) < 2 ^ 31"
  using sint_lt [of v] by simp

lemma readBytes_onWire:
  assumes "readBytes P off = Inr (b, off')"
  shows "onWire P off (wireBytes b)" and "off' = off + length (wireBytes b)" and "fitsInt32 b"
proof -
  from assms obtain len where u: "uint32_at P off = Inr len"
    by (auto simp: readBytes_def seq_Inr_iff)
  note w = uint32_at_onWire [OF u]
  note c = assms [unfolded readBytes_cases [OF u]]
  have "onWire P off (wireBytes b) \<and> off' = off + length (wireBytes b) \<and> fitsInt32 b"
  proof (cases "len = - 1")
    case True
    with c w show ?thesis by (auto simp: wireBytes_def fitsInt32_def)
  next
    case False
    define bs where "bs = take (nat (sint len)) (drop (off + 4) (elems P @ spare P))"
    from False c have s: "0 \<le> sint len"
      and h: "off + 4 + nat (sint len) \<le> length (elems P) + length (spare P)"
      and b: "b = Some bs"
      and o: "off' = off + 4 + nat (sint len)"
      unfolding bs_def by (auto split: if_splits)
    have l: "length bs = nat (sint len)"
      unfolding bs_def using length_take_drop [of "off + 4" "nat (sint len)" "elems P @ spare P"] h
      by (simp only: length_append)
    have "onWire P (off + 4) bs"
      unfolding bs_def using h by (rule onWire_take)
    with w(1) have "onWire P off (PutUint32 len @ bs)"
      by (simp add: onWire_append)
    moreover have "word_of_nat (length bs) = len"
      unfolding l using s by (rule word_of_nat_sint32)
    ultimately show ?thesis
      using o l sint_length_bound [OF s] unfolding b
      by (simp add: wireBytes_def fitsInt32_def)
  qed
  then show "onWire P off (wireBytes b)" and "off' = off + length (wireBytes b)"
    and "fitsInt32 b" by simp_all
qed

lemma readMessage_onWire:
  assumes "readMessage P off = Inr (m, off')"
  shows "onWire P off (wireMessage m)" and "off' = off + length (wireMessage m)"
    and "wellFormed m"
proof -
  from readMessage_fields [OF assms] obtain o1 where
    f: "uint64_at P off = Inr (Offset m)"
       "uint32_at P (off + 8) = Inr (MessageSize m)"
       "uint32_at P (off + 8 + 4) = Inr (Crc m)"
       "index P (off + 8 + 4 + 4) = Inr (MagicByte m)"
       "index P (off + 8 + 4 + 4 + 1) = Inr (Attributes m)"
       "readBytes P (off + 8 + 4 + 4 + 1 + 1) = Inr (Key m, o1)"
       "readBytes P o1 = Inr (Value m, off')"
    by blast
  note k = readBytes_onWire [OF f(6)]
  note v = readBytes_onWire [OF f(7)]
  show "wellFormed m" using k(3) v(3) by (simp add: wellFormed_def)
  show "off' = off + length (wireMessage m)"
    using k(2) v(2) by (simp add: length_wireMessage)
  have "onWire P o1 (wireBytes (Value m))" by (rule v(1))
  then have 7: "onWire P (off + 8 + 4 + 4 + 1 + 1) (wireBytes (Key m) @ wireBytes (Value m))"
    using k(1) unfolding k(2) by (simp only: onWire_append simp_thms)
  have 6: "onWire P (off + 8 + 4 + 4 + 1) ([Attributes m] @ wireBytes (Key m) @ wireBytes (Value m))"
    using index_onWire(1) [OF f(5)] 7
    by (simp only: onWire_append [of _ _ "[_]"] list.size One_nat_def add_Suc_right add_0_right simp_thms)
  have 5: "onWire P (off + 8 + 4 + 4) ([MagicByte m] @ [Attributes m] @ wireBytes (Key m) @ wireBytes (Value m))"
    using index_onWire(1) [OF f(4)] 6
    by (simp only: onWire_append [of _ _ "[_]"] list.size One_nat_def add_Suc_right add_0_right simp_thms)
  have 4: "onWire P (off + 8 + 4) (PutUint32 (Crc m) @ [MagicByte m] @ [Attributes m] @ wireBytes (Key m) @ wireBytes (Value m))"
    using uint32_at_onWire(1) [OF f(3)] 5
    by (simp only: onWire_append [of _ _ "PutUint32 _"] length_Put simp_thms)
  have 3: "onWire P (off + 8) (PutUint32 (MessageSize m) @ PutUint32 (Crc m) @ [MagicByte m] @ [Attributes m] @ wireBytes (Key m) @ wireBytes (Value m))"
    using uint32_at_onWire(1) [OF f(2)] 4
    by (simp only: onWire_append [of _ _ "PutUint32 _"] length_Put simp_thms)
  have "onWire P off (PutUint64 (Offset m) @ PutUint32 (MessageSize m) @ PutUint32 (Crc m)
     @ [MagicByte m] @ [Attributes m] @ wireBytes (Key m) @ wireBytes (Value m))"
    using uint64_at_onWire(1) [OF f(1)] 3
    by (simp only: onWire_append [of _ _ "PutUint64 _"] length_Put simp_thms)
  then show "onWire P off (wireMessage m)" by (simp add: wireMessage_def)
qed

lemma readMessages_onWire:
  assumes "readMessages P n off = Inr (ms, off')"
  shows "onWire P off (concat (map wireMessage ms))
       \<and> off' = off + length (concat (map wireMessage ms))
       \<and> list_all wellFormed ms"
  using assms
proof (induction n arbitrary: off ms off')
  case 0
  then show ?case by (simp add: onWire_def)
next
  case (Suc n)
  from Suc.prems obtain m o1 where rm: "readMessage P off = Inr (m, o1)"
    and rest: "(if o1 = length (elems P) then Inr ([m], o1)
                else seq (readMessages P n o1) (\<lambda>(ms, offset). Inr (m # ms, offset)))
               = Inr (ms, off')"
    by (auto simp: seq_Inr_iff)
  note w = readMessage_onWire [OF rm]
  show ?case
  proof (cases "o1 = length (elems P)")
    case True
    with rest have "ms = [m]" and "off' = o1" by simp_all
    with w show ?thesis by simp
  next
    case False
    with rest obtain ms' where r': "readMessages P n o1 = Inr (ms', off')" and ms: "ms = m # ms'"
      by (auto simp: seq_Inr_iff)
    from Suc.IH [OF r'] w show ?thesis
      unfolding ms by (simp add: onWire_append)
  qed
qed

lemma readTopicData_fields:
  assumes "readTopicData P off = Inr (d, off')"
  shows "uint32_at P off = Inr (Partition d)"
    and "uint16_at P (off + 4) = Inr (ErrorCode d)"
    and "uint64_at P (off + 4 + 2) = Inr (HighwaterMarkOffset d)"
    and "uint32_at P (off + 4 + 2 + 8) = Inr (MessageSetSize d)"
  using assms
  by (auto simp: readTopicData_def seq_Inr_iff Let_def split: if_splits)

lemma readTopicData_head_onWire:
  assumes "readTopicData P off = Inr (d, off')"
  shows "onWire P off (wireTopicDataHead d)" and "off + 18 \<le> length (elems P)"
proof -
  note f = readTopicData_fields [OF assms]
  have 3: "onWire P (off + 4 + 2) (PutUint64 (HighwaterMarkOffset d) @ PutUint32 (MessageSetSize d))"
    using uint64_at_onWire(1) [OF f(3)] uint32_at_onWire(1) [OF f(4)]
    by (simp only: onWire_append length_Put simp_thms)
  have 2: "onWire P (off + 4) (PutUint16 (ErrorCode d) @ PutUint64 (HighwaterMarkOffset d)
      @ PutUint32 (MessageSetSize d))"
    using uint16_at_onWire(1) [OF f(2)] 3
    by (simp only: onWire_append [of _ _ "PutUint16 _"] length_Put simp_thms)
  show "onWire P off (wireTopicDataHead d)"
    unfolding wireTopicDataHead_def
    using uint32_at_onWire(1) [OF f(1)] 2
    by (simp only: onWire_append [of _ _ "PutUint32 _"] length_Put simp_thms)
  show "off + 18 \<le> length (elems P)"
    using uint32_at_onWire(2) [OF f(4)] by simp
qed

lemma length_wireTopicDataHead [simp]: "length (wireTopicDataHead d) = 18"
  by (simp add: wireTopicDataHead_def)

lemma readTopicData_onWire:
  assumes "readTopicData P off = Inr (d, off')"
  shows "\<exists>k. k \<le> length (MessageSet d)
      \<and> onWire P off (wireTopicDataHead d @ concat (map wireMessage (take k (MessageSet d))))
      \<and> off' = off + 18 + length (concat (map wireMessage (take k (MessageSet d))))
      \<and> list_all wellFormed (take k (MessageSet d))
      \<and> drop k (MessageSet d) = replicate (length (MessageSet d) - k) zeroMessage
      \<and> (k = length (MessageSet d) \<or> (0 < k \<and> off' = length (elems P)))"
    and "0 \<le> sint (MessageSetSize d)"
    and "length (MessageSet d) = nat (sint (MessageSetSize d))"
proof -
  from readTopicData_messages [OF assms] obtain ms where
    s: "0 \<le> sint (MessageSetSize d)"
    and r: "readMessages P (nat (sint (MessageSetSize d))) (off + 18) = Inr (ms, off')"
    and m: "MessageSet d = ms @ replicate (nat (sint (MessageSetSize d)) - length ms) zeroMessage"
    by blast
  note c = readMessages_count [OF r]
  note w = readMessages_onWire [OF r]
  note h = readTopicData_head_onWire [OF assms]
  show "0 \<le> sint (MessageSetSize d)" by (rule s)
  show l: "length (MessageSet d) = nat (sint (MessageSetSize d))"
    using c by (simp add: m)
  have t: "take (length ms) (MessageSet d) = ms"
    and d: "drop (length ms) (MessageSet d)
            = replicate (length (MessageSet d) - length ms) zeroMessage"
    unfolding l by (simp_all add: m)
  have "length ms \<le> length (MessageSet d)" using c l by simp
  moreover have "onWire P off (wireTopicDataHead d @ concat (map wireMessage ms))"
    using h(1) w by (simp add: onWire_append)
  moreover have "length ms = length (MessageSet d) \<or> (0 < length ms \<and> off' = length (elems P))"
    using c l by auto
  ultimately show "\<exists>k. k \<le> length (MessageSet d)
      \<and> onWire P off (wireTopicDataHead d @ concat (map wireMessage (take k (MessageSet d))))
      \<and> off' = off + 18 + length (concat (map wireMessage (take k (MessageSet d))))
      \<and> list_all wellFormed (take k (MessageSet d))
      \<and> drop k (MessageSet d) = replicate (length (MessageSet d) - k) zeroMessage
      \<and> (k = length (MessageSet d) \<or> (0 < k \<and> off' = length (elems P)))"
    using w d by (intro exI [of _ "length ms"]) (simp add: t)
qed

lemma DecodeFetchResponse_nil: "DecodeFetchResponse P = Inr (r, err) \<Longrightarrow> err = None"
  by (auto simp: DecodeFetchResponse_def seq_Inr_iff Let_def)

subsection \<open>Decoding a whole response written in the wire layout\<close>

lemma unat_length32: "n < 2 ^ 32 \<Longrightarrow> unat (word_of_nat n :: 32 word) = n"
  by (simp add: unat_of_nat take_bit_nat_eq_self)

lemma readMessages_full:
  assumes "drop off (elems P) = concat (map wireMessage ms) @ rest"
    and "list_all wellFormed ms"
  shows "readMessages P (length ms) off = Inr (ms, off + length (concat (map wireMessage ms)))"
  using assms
proof (induction ms arbitrary: off)
  case Nil
  then show ?case by simp
next
  case (Cons m ms)
  from Cons.prems(1) have d0: "drop off (elems P) = wireMessage m @ (concat (map wireMessage ms) @ rest)"
    by simp
  from Cons.prems(2) have wf: "wellFormed m" and wfs: "list_all wellFormed ms" by simp_all
  note d1 = drop_eq_appendD(1) [OF d0]
  note m = readMessage_wire [OF d0 wf]
  show ?case
  proof (cases "off + length (wireMessage m) = length (elems P)")
    case True
    with d1 have "concat (map wireMessage ms) = []" by simp
    then have "ms = []" by (cases ms) simp_all
    with m True show ?thesis by (simp add: seq_simps)
  next
    case False
    with m Cons.IH [OF d1 wfs] show ?thesis
      by (simp add: seq_simps add.assoc)
  qed
qed

lemma length_wireTopicData:
  "length (wireTopicData d) = 0 + 4 + 2 + 8 + 4 + length (concat (map wireMessage (MessageSet d)))"
  by (simp add: wireTopicData_def)

lemma readTopicData_full:
  assumes d: "drop off (elems P) = wireTopicData d @ rest" and c: "completeTopicData d"
  shows "readTopicData P off = Inr (d, off + length (wireTopicData d))"
proof -
  from d have d0: "drop off (elems P) = PutUint32 (Partition d) @ (PutUint16 (ErrorCode d)
      @ (PutUint64 (HighwaterMarkOffset d) @ (PutUint32 (MessageSetSize d)
      @ (concat (map wireMessage (MessageSet d)) @ rest))))"
    by (simp add: wireTopicData_def wireTopicDataHead_def)
  note d1 = drop_eq_appendD(1) [OF d0, unfolded length_Put]
  note d2 = drop_eq_appendD(1) [OF d1, unfolded length_Put]
  note d3 = drop_eq_appendD(1) [OF d2, unfolded length_Put]
  note d4 = drop_eq_appendD(1) [OF d3, unfolded length_Put]
  note r = uint32_at_wire [OF d0] uint16_at_wire [OF d1] uint64_at_wire [OF d2]
    uint32_at_wire [OF d3]
  from c have neg: "\<not> sint (MessageSetSize d) < 0"
    and n: "nat (sint (MessageSetSize d)) = length (MessageSet d)"
    and wf: "list_all wellFormed (MessageSet d)"
    by (simp_all add: completeTopicData_def)
  note m = readMessages_full [OF d4 wf]
  have e: "\<lparr>Partition = Partition d, ErrorCode = ErrorCode d,
            HighwaterMarkOffset = HighwaterMarkOffset d, MessageSetSize = MessageSetSize d,
            MessageSet = MessageSet d @ replicate (length (MessageSet d) - length (MessageSet d)) zeroMessage\<rparr> = d"
    by simp
  have "readTopicData P off
      = Inr (d, off + 4 + 2 + 8 + 4 + length (concat (map wireMessage (MessageSet d))))"
    by (simp only: readTopicData_def Let_def seq_simps r neg if_False n m prod.case e)
  then show ?thesis by (simp add: length_wireTopicData)
qed

lemma wireTopicData_nonempty [simp]: "wireTopicData d \<noteq> []"
  by (simp add: wireTopicData_def wireTopicDataHead_def)

lemma readTopicDatas_full:
  assumes "drop off (elems P) = concat (map wireTopicData ds) @ rest"
    and "list_all completeTopicData ds"
  shows "readTopicDatas P (length ds) off = Inr (ds, off + length (concat (map wireTopicData ds)))"
  using assms
proof (induction ds arbitrary: off)
  case Nil
  then show ?case by simp
next
  case (Cons d ds)
  from Cons.prems(1) have d0: "drop off (elems P) = wireTopicData d @ (concat (map wireTopicData ds) @ rest)"
    by simp
  from Cons.prems(2) have c: "completeTopicData d" and cs: "list_all completeTopicData ds"
    by simp_all
  note d1 = drop_eq_appendD(1) [OF d0]
  from readTopicData_full [OF d0 c] Cons.IH [OF d1 cs] show ?case
    by (simp add: seq_simps add.assoc)
qed

lemma length_wireFetchTopic:
  "length (wireFetchTopic t)
     = 0 + 2 + length (TopicName_f t) + 4 + length (concat (map wireTopicData (TopicDatas t)))"
  by (simp add: wireFetchTopic_def)

lemma readFetchTopic_full:
  assumes d: "drop off (elems P) = wireFetchTopic t @ rest" and c: "completeTopic t"
  shows "readFetchTopic P off = Inr (t, off + length (wireFetchTopic t))"
proof -
  let ?L = "word_of_nat (length (TopicName_f t)) :: 16 word"
  let ?N = "word_of_nat (length (TopicDatas t)) :: 32 word"
  from c have ln: "length (TopicName_f t) < 2 ^ 16" and lc: "length (TopicDatas t) < 2 ^ 32"
    and cs: "list_all completeTopicData (TopicDatas t)"
    by (simp_all add: completeTopic_def)
  from d have d0: "drop off (elems P) = PutUint16 ?L @ (TopicName_f t @ (PutUint32 ?N
      @ (concat (map wireTopicData (TopicDatas t)) @ rest)))"
    by (simp add: wireFetchTopic_def)
  note d1 = drop_eq_appendD(1) [OF d0, unfolded length_Put]
  note d2 = drop_eq_appendD(1) [OF d1]
  note d3 = drop_eq_appendD(1) [OF d2, unfolded length_Put]
  from drop_eq_appendD(2) [OF d0] have le: "off + 2 \<le> length (elems P)" by simp
  note r = uint16_at_wire [OF d0] subslice_wire [OF d1 le] uint32_at_wire [OF d2]
  note m = readTopicDatas_full [OF d3 cs]
  have e: "\<lparr>TopicName_f = TopicName_f t, TopicDatas = TopicDatas t\<rparr> = t" by simp
  have "readFetchTopic P off
      = Inr (t, off + 2 + length (TopicName_f t) + 4
                + length (concat (map wireTopicData (TopicDatas t))))"
    by (simp only: readFetchTopic_def Let_def seq_simps r length_word16 [OF ln]
        unat_length32 [OF lc] m prod.case e)
  then show ?thesis by (simp add: length_wireFetchTopic)
qed

lemma readFetchTopics_full:
  assumes "drop off (elems P) = concat (map wireFetchTopic ts) @ rest"
    and "list_all completeTopic ts"
  shows "readFetchTopics P (length ts) off = Inr (ts, off + length (concat (map wireFetchTopic ts)))"
  using assms
proof (induction ts arbitrary: off)
  case Nil
  then show ?case by simp
next
  case (Cons t ts)
  from Cons.prems(1) have d0: "drop off (elems P) = wireFetchTopic t @ (concat (map wireFetchTopic ts) @ rest)"
    by simp
  from Cons.prems(2) have c: "completeTopic t" and cs: "list_all completeTopic ts"
    by simp_all
  note d1 = drop_eq_appendD(1) [OF d0]
  from readFetchTopic_full [OF d0 c] Cons.IH [OF d1 cs] show ?case
    by (simp add: seq_simps add.assoc)
qed

lemma DecodeFetchResponse_full:
  assumes e: "elems P = wireFetchResponse r @ rest" and c: "completeResponse r"
  shows "DecodeFetchResponse P = Inr (r, None)"
proof -
  let ?N = "word_of_nat (length r) :: 32 word"
  from c have lc: "length r < 2 ^ 32" and cs: "list_all completeTopic r"
    by (simp_all add: completeResponse_def)
  from e have d0: "drop 0 (elems P) = PutUint32 ?N @ (concat (map wireFetchTopic r) @ rest)"
    by (simp add: wireFetchResponse_def)
  note d1 = drop_eq_appendD(1) [OF d0, unfolded length_Put]
  note m = readFetchTopics_full [OF d1 cs]
  show ?thesis
    by (simp only: DecodeFetchResponse_def Let_def seq_simps uint32_at_wire [OF d0]
        unat_length32 [OF lc] m prod.case)
qed

subsection \<open>Messages that reach into the spare capacity\<close>

text \<open>A message is read whenever it stands in the backing array and its two length fields
  lie below \<open>len(payload)\<close>; it is not read when the backing array ends before it does.\<close>

lemma onWire_drop_elems:
  assumes "onWire P off a" and "off + length a \<le> length (elems P)"
  shows "drop off (elems P) = a @ drop (off + length a) (elems P)"
proof -
  from assms have "take (length a) (drop off (elems P)) = a"
    unfolding onWire_def by simp
  then have "drop off (elems P) = a @ drop (length a) (drop off (elems P))"
    by (metis append_take_drop_id)
  then show ?thesis by (simp only: drop_drop add.commute)
qed

lemma uint32_at_backing:
  assumes "onWire P off (PutUint32 v)" and "off + 4 \<le> length (elems P)"
  shows "uint32_at P off = Inr v"
  using onWire_drop_elems [OF assms(1)] assms(2) by (auto intro: uint32_at_wire)

lemma uint64_at_backing:
  assumes "onWire P off (PutUint64 v)" and "off + 8 \<le> length (elems P)"
  shows "uint64_at P off = Inr v"
  using onWire_drop_elems [OF assms(1)] assms(2) by (auto intro: uint64_at_wire)

lemma index_backing:
  assumes "onWire P off [b]" and "off + 1 \<le> length (elems P)"
  shows "index P off = Inr b"
proof -
  from onWire_drop_elems [OF assms(1)] assms(2)
  have "drop off (elems P) = b # drop (off + 1) (elems P)" by simp
  then show ?thesis by (rule index_wire)
qed

lemma readBytes_backing:
  assumes w: "onWire P off (wireBytes b)" and f: "fitsInt32 b"
    and le: "off + 4 \<le> length (elems P)"
  shows "readBytes P off = Inr (b, off + length (wireBytes b))"
proof (cases b)
  case None
  with w le have "uint32_at P off = Inr (- 1)"
    by (simp add: wireBytes_def uint32_at_backing)
  with None show ?thesis
    by (simp add: readBytes_cases length_wireBytes)
next
  case (Some bs)
  with f have n: "length bs < 2 ^ 31" by (simp add: fitsInt32_def)
  let ?v = "word_of_nat (length bs) :: 32 word"
  from w Some have w1: "onWire P off (PutUint32 ?v)" and w2: "onWire P (off + 4) bs"
    by (simp_all add: wireBytes_def onWire_append)
  from w1 le have u: "uint32_at P off = Inr ?v" by (rule uint32_at_backing)
  from length_word32 [OF n] have v: "?v \<noteq> - 1" "sint ?v = int (length bs)" .
  have c: "off + 4 + length bs \<le> length (elems P) + length (spare P)"
  proof (cases "bs = []")
    case True
    with le show ?thesis by simp
  next
    case False
    from onWire_bound [OF w2 False] show ?thesis .
  qed
  from w2 have t: "take (length bs) (drop (off + 4) (elems P @ spare P)) = bs"
    by (simp only: onWire_def)
  show ?thesis
    unfolding readBytes_cases [OF u] using v c t Some
    by (simp add: length_wireBytes del: drop_append take_append)
qed

lemma readMessage_bound_elems:
  assumes "readMessage P off = Inr (m, off')"
  shows "off + 18 + length (wireBytes (Key m)) + 4 \<le> length (elems P)"
proof -
  from readMessage_fields [OF assms] obtain o1 where
    k: "readBytes P (off + 8 + 4 + 4 + 1 + 1) = Inr (Key m, o1)"
    and v: "readBytes P o1 = Inr (Value m, off')"
    by blast
  from v obtain len where "uint32_at P o1 = Inr len"
    by (auto simp: readBytes_def seq_Inr_iff)
  from uint32_at_bound [OF this] readBytes_onWire(2) [OF k] show ?thesis by simp
qed

lemma readMessage_backing:
  assumes w: "onWire P off (wireMessage m)" and wf: "wellFormed m"
    and le: "off + 18 + length (wireBytes (Key m)) + 4 \<le> length (elems P)"
  shows "readMessage P off = Inr (m, off + length (wireMessage m))"
proof -
  let ?k = "wireBytes (Key m)" and ?v = "wireBytes (Value m)"
  from w have "onWire P off (PutUint64 (Offset m) @ (PutUint32 (MessageSize m)
      @ (PutUint32 (Crc m) @ ([MagicByte m] @ ([Attributes m] @ (?k @ ?v))))))"
    by (simp add: wireMessage_def)
  moreover have l1: "\<And>x :: byte. length [x] = 1" by simp
  ultimately have w1: "onWire P off (PutUint64 (Offset m))"
    and w2: "onWire P (off + 8) (PutUint32 (MessageSize m))"
    and w3: "onWire P (off + 8 + 4) (PutUint32 (Crc m))"
    and w4: "onWire P (off + 8 + 4 + 4) [MagicByte m]"
    and w5: "onWire P (off + 8 + 4 + 4 + 1) [Attributes m]"
    and w6: "onWire P (off + 8 + 4 + 4 + 1 + 1) ?k"
    and w7: "onWire P (off + 8 + 4 + 4 + 1 + 1 + length ?k) ?v"
    by (simp_all only: onWire_append length_Put l1)
  from wf have fk: "fitsInt32 (Key m)" and fv: "fitsInt32 (Value m)"
    by (simp_all add: wellFormed_def)
  from le have b: "off + 8 \<le> length (elems P)" "off + 8 + 4 \<le> length (elems P)"
    "off + 8 + 4 + 4 \<le> length (elems P)" "off + 8 + 4 + 4 + 1 \<le> length (elems P)"
    "off + 8 + 4 + 4 + 1 + 1 \<le> length (elems P)" "off + 8 + 4 + 4 + 1 + 1 + 4 \<le> length (elems P)"
    "off + 8 + 4 + 4 + 1 + 1 + length ?k + 4 \<le> length (elems P)"
    by simp_all
  note r1 = uint64_at_backing [OF w1 b(1)] and r2 = uint32_at_backing [OF w2 b(2)]
    and r3 = uint32_at_backing [OF w3 b(3)] and r4 = index_backing [OF w4 b(4)]
    and r5 = index_backing [OF w5 b(5)]
    and r6 = readBytes_backing [OF w6 fk b(6)] and r7 = readBytes_backing [OF w7 fv b(7)]
  have "readMessage P off =
      Inr (\<lparr>Offset = Offset m, MessageSize = MessageSize m, Crc = Crc m,
             MagicByte = MagicByte m, Attributes = Attributes m, Key = Key m,
             Value = Value m\<rparr>, off + 8 + 4 + 4 + 1 + 1 + length ?k + length ?v)"
    by (simp only: readMessage_def Let_def seq_simps r1 r2 r3 r4 r5 r6 r7 prod.case)
  then show ?thesis
    by (simp add: length_wireMessage)
qed

lemma readMessage_cut:
  assumes d: "drop off (elems P @ spare P) = take t (wireMessage m)"
    and t: "t < length (wireMessage m)" and wf: "wellFormed m"
  shows "\<exists>e. readMessage P off = Inl e"
proof (cases "readMessage P off")
  case (Inl e)
  then show ?thesis by blast
next
  case (Inr x)
  obtain m' off' where x: "x = (m', off')" by (cases x)
  from Inr x have r: "readMessage P off = Inr (m', off')" by simp
  note w = readMessage_onWire [OF r]
  from onWire_bound [OF w(1)]
  have c: "off + length (wireMessage m') \<le> length (elems P) + length (spare P)" by simp
  have "length (drop off (elems P @ spare P)) = t"
    using t by (simp only: d length_take min_absorb2 less_imp_le)
  then have len: "length (elems P) + length (spare P) - off = t" by simp
  let ?P = "\<lparr>elems = elems P @ spare P @ drop t (wireMessage m), spare = []\<rparr>"
  from c have "drop off (elems ?P) = drop off (elems P @ spare P) @ drop t (wireMessage m)"
    by simp
  then have "drop off (elems ?P) = wireMessage m @ []"
    unfolding d by simp
  from readMessage_wire [OF this wf]
  have full: "readMessage ?P off = Inr (m, off + length (wireMessage m))" .
  from w(1) c have "onWire ?P off (wireMessage m')"
    unfolding onWire_def by simp
  moreover from readMessage_bound_elems [OF r]
  have "off + 18 + length (wireBytes (Key m')) + 4 \<le> length (elems ?P)" by simp
  ultimately have "readMessage ?P off = Inr (m', off + length (wireMessage m'))"
    using w(3) by (intro readMessage_backing)
  with full have "m' = m" by simp
  with c len t show ?thesis by simp
qed

subsection \<open>Message counts, error codes, keys and values of a decoded response\<close>

lemma sint_one32: "sint (1 :: 32 word) = 1"
  by simp

lemma DecodeFetchResponse_message_backing:
  assumes ln: "length name < 2 ^ 16" and wf: "wellFormed m"
    and b: "body @ sp = wireMessage m @ rest"
    and le: "18 + length (wireBytes (Key m)) + 4 \<le> length body"
  shows "DecodeFetchResponse \<lparr>elems = wireOnePartition name pid ec hwm 1 @ body, spare = sp\<rparr>
     = Inr ([\<lparr>TopicName_f = name,
               TopicDatas =
                 [\<lparr>Partition = pid, ErrorCode = ec, HighwaterMarkOffset = hwm,
                     MessageSetSize = 1, MessageSet = [m]\<rparr>]\<rparr>],
            None)"
proof -
  let ?h = "wireOnePartition name pid ec hwm 1"
  let ?P = "\<lparr>elems = ?h @ body, spare = sp\<rparr>"
  have e: "elems ?P = ?h @ body" by simp
  have n0: "0 \<le> sint (1 :: 32 word)" by simp
  note dec = DecodeFetchResponse_onePartition [OF e ln n0]
  have "drop (length ?h) (elems ?P @ spare ?P) = wireMessage m @ rest"
    using b by simp
  then have w: "onWire ?P (length ?h) (wireMessage m)"
    unfolding onWire_def by simp
  from le have "length ?h + 18 + length (wireBytes (Key m)) + 4 \<le> length (elems ?P)"
    by simp
  from readMessage_backing [OF w wf this]
  have "readMessages ?P (Suc 0) (length ?h)
      = Inr ([m], length ?h + length (wireMessage m))"
    by (simp add: seq_simps)
  then show ?thesis
    unfolding dec(1) by (simp add: seq_simps)
qed

lemma DecodeFetchResponse_message_cut:
  assumes ln: "length name < 2 ^ 16" and wf: "wellFormed m"
    and b: "body @ sp = take t (wireMessage m)" and t: "t < length (wireMessage m)"
  shows "\<exists>e. DecodeFetchResponse
                \<lparr>elems = wireOnePartition name pid ec hwm 1 @ body, spare = sp\<rparr> = Inl e"
proof -
  let ?h = "wireOnePartition name pid ec hwm 1"
  let ?P = "\<lparr>elems = ?h @ body, spare = sp\<rparr>"
  have e: "elems ?P = ?h @ body" by simp
  have n0: "0 \<le> sint (1 :: 32 word)" by simp
  note dec = DecodeFetchResponse_onePartition [OF e ln n0]
  have "drop (length ?h) (elems ?P @ spare ?P) = take t (wireMessage m)"
    using b by simp
  from readMessage_cut [OF this t wf] obtain err where "readMessage ?P (length ?h) = Inl err"
    by blast
  then have "readMessages ?P (Suc 0) (length ?h) = Inl err"
    by (simp add: seq_simps)
  then show ?thesis
    unfolding dec(1) by (simp add: seq_simps)
qed




lemma twoPartitions_wire: "wireFetchResponse twoPartitionsSnapshot = twoPartitionsPayload"
  by code_simp

lemma twoPartitions_complete: "completeResponse twoPartitionsSnapshot"
  by (simp add: completeResponse_def completeTopic_def completeTopicData_def
      twoPartitionsSnapshot_def wellFormed_def fitsInt32_def decodedMessage_def)

text \<open>
  C6. Whenever \<open>DecodeFetchResponse\<close> returns, the error it returns is \<open>nil\<close>, and every
  partition of the response carries the error code that stands in the payload between
  its partition number and its high-water mark: the four leading fields of the partition,
  with its \<open>ErrorCode\<close> as the second, stand in the payload below \<open>len(payload)\<close>.
  Conversely, a buffer that holds a response in the wire layout, whatever its error
  codes, decodes to that response, error codes included, with a \<open>nil\<close> error.
\<close>

theorem DecodeFetchResponse_error_nil:
  "(DecodeFetchResponse payload = Inr (r, err) \<longrightarrow>
      err = None
      \<and> (\<forall>t \<in> set r. \<forall>d \<in> set (TopicDatas t).
           \<exists>off. off + 18 \<le> length (elems payload)
              \<and> onWire payload off
                   (PutUint32 (Partition d) @ PutUint16 (ErrorCode d)
                    @ PutUint64 (HighwaterMarkOffset d) @ PutUint32 (MessageSetSize d))))
   \<and> (completeResponse response \<longrightarrow>
        DecodeFetchResponse \<lparr>elems = wireFetchResponse response @ rest, spare = sp\<rparr>
          = Inr (response, None))"
proof (intro conjI impI ballI)
  assume "DecodeFetchResponse payload = Inr (r, err)"
  then show "err = None" by (rule DecodeFetchResponse_nil)
next
  fix t d
  assume dec: "DecodeFetchResponse payload = Inr (r, err)"
    and t: "t \<in> set r" and d: "d \<in> set (TopicDatas t)"
  from DecodeFetchResponse_elem [OF dec t d] obtain off off' where
    rd: "readTopicData payload off = Inr (d, off')" by blast
  from readTopicData_head_onWire [OF rd]
  show "\<exists>off. off + 18 \<le> length (elems payload)
              \<and> onWire payload off
                   (PutUint32 (Partition d) @ PutUint16 (ErrorCode d)
                    @ PutUint64 (HighwaterMarkOffset d) @ PutUint32 (MessageSetSize d))"
    unfolding wireTopicDataHead_def by blast
next
  assume "completeResponse response"
  then show "DecodeFetchResponse \<lparr>elems = wireFetchResponse response @ rest, spare = sp\<rparr>
          = Inr (response, None)"
    by (intro DecodeFetchResponse_full) simp_all
qed

theorem DecodeFetchResponse_error_nil_witness:
  "DecodeFetchResponse \<lparr>elems = twoPartitionsPayload, spare = []\<rparr>
     = Inr (twoPartitionsSnapshot, None)
   \<and> map ErrorCode (TopicDatas (hd twoPartitionsSnapshot)) = [3, 6]
   \<and> (\<exists>off. off + 18 \<le> length twoPartitionsPayload
         \<and> onWire \<lparr>elems = twoPartitionsPayload, spare = []\<rparr> off
              (PutUint32 8 @ PutUint16 6 @ PutUint64 9 @ PutUint32 0))"
proof -
  let ?p = "\<lparr>elems = twoPartitionsPayload, spare = []\<rparr>"
  let ?d = "\<lparr>Partition = 8, ErrorCode = 6, HighwaterMarkOffset = 9, MessageSetSize = 0,
             MessageSet = []\<rparr>"
  note full = DecodeFetchResponse_error_nil [where response = twoPartitionsSnapshot
    and rest = "[]" and sp = "[]"]
  from full twoPartitions_complete
  have 1: "DecodeFetchResponse ?p = Inr (twoPartitionsSnapshot, None)"
    by (simp add: twoPartitions_wire)
  have 2: "map ErrorCode (TopicDatas (hd twoPartitionsSnapshot)) = [3, 6]"
    by (simp add: twoPartitionsSnapshot_def)
  note sound = DecodeFetchResponse_error_nil [where payload = ?p and r = twoPartitionsSnapshot
    and err = None]
  from sound 1
  have "\<forall>t \<in> set twoPartitionsSnapshot. \<forall>d \<in> set (TopicDatas t).
           \<exists>off. off + 18 \<le> length (elems ?p)
              \<and> onWire ?p off
                   (PutUint32 (Partition d) @ PutUint16 (ErrorCode d)
                    @ PutUint64 (HighwaterMarkOffset d) @ PutUint32 (MessageSetSize d))"
    by blast
  then have "\<forall>d \<in> set (TopicDatas (hd twoPartitionsSnapshot)).
           \<exists>off. off + 18 \<le> length (elems ?p)
              \<and> onWire ?p off
                   (PutUint32 (Partition d) @ PutUint16 (ErrorCode d)
                    @ PutUint64 (HighwaterMarkOffset d) @ PutUint32 (MessageSetSize d))"
    by (simp add: twoPartitionsSnapshot_def)
  moreover have "?d \<in> set (TopicDatas (hd twoPartitionsSnapshot))"
    by (simp add: twoPartitionsSnapshot_def)
  ultimately have "\<exists>off. off + 18 \<le> length (elems ?p)
              \<and> onWire ?p off
                   (PutUint32 (Partition ?d) @ PutUint16 (ErrorCode ?d)
                    @ PutUint64 (HighwaterMarkOffset ?d) @ PutUint32 (MessageSetSize ?d))"
    by blast
  then have 3: "\<exists>off. off + 18 \<le> length twoPartitionsPayload
         \<and> onWire ?p off (PutUint32 8 @ PutUint16 6 @ PutUint64 9 @ PutUint32 0)"
    by simp
  from 1 2 3 show ?thesis by simp
qed

lemma fetchHeadOne_wire: "wireOnePartition [116] 7 3 5 1 = fetchHeadOne"
  by code_simp

lemma spareMessage_wire: "wireMessage spareMessage = take 27 fetchMessage @ [99]"
  by code_simp

text \<open>
  C7 (as stated, refuted). The buffer holds one message whose value announces the length
  2 at offset 51, and ends one byte later, at 56. Without spare capacity the decoder does
  not return a value of 2 bytes: the slice expression of line 97 panics. With one spare
  byte 99 behind the buffer the value it returns is 7, 99, whose last byte is not a byte
  of the buffer.
\<close>

theorem DecodeFetchResponse_short_value_counterexample:
  "uint32_at \<lparr>elems = fetchHeadOne @ take 27 fetchMessage, spare = []\<rparr> 51 = Inr 2
   \<and> length (fetchHeadOne @ take 27 fetchMessage) = 56
   \<and> DecodeFetchResponse \<lparr>elems = fetchHeadOne @ take 27 fetchMessage, spare = []\<rparr>
       = Inl SliceBoundsOutOfRange
   \<and> DecodeFetchResponse \<lparr>elems = fetchHeadOne @ take 27 fetchMessage, spare = [99]\<rparr>
       = Inr ([\<lparr>TopicName_f = [116],
                 TopicDatas =
                   [\<lparr>Partition = 7, ErrorCode = 3, HighwaterMarkOffset = 5,
                       MessageSetSize = 1, MessageSet = [spareMessage]\<rparr>]\<rparr>],
              None)
   \<and> Value spareMessage = Some [7, 99]"
  by code_simp

text \<open>
  C7 (amended). In every response the decoder returns, the messages it has read stand in
  the backing array of the payload in the message layout: a key or value that is \<open>nil\<close>
  where the length field is \<open>-1\<close>, and otherwise as many bytes as the length field says,
  which is not negative, taken from behind the length field; these bytes may lie between
  \<open>len(payload)\<close> and \<open>cap(payload)\<close>. Conversely, for a response with one topic, one
  partition and one declared message: when the backing array holds the message behind
  the leading fields and both length fields lie below \<open>len(payload)\<close>, the decoder
  returns this message, with a \<open>nil\<close> key or value for the length \<open>-1\<close> and with exactly
  the announced bytes otherwise; when the backing array ends before the message does, so
  also when fewer bytes than announced follow a length field, the decoder panics.
\<close>

theorem DecodeFetchResponse_key_value:
  "(DecodeFetchResponse payload = Inr (r, err) \<longrightarrow>
      (\<forall>t \<in> set r. \<forall>d \<in> set (TopicDatas t).
         \<exists>off k. k \<le> length (MessageSet d)
            \<and> onWire payload off (concat (map wireMessage (take k (MessageSet d))))
            \<and> list_all wellFormed (take k (MessageSet d))
            \<and> drop k (MessageSet d) = replicate (length (MessageSet d) - k) zeroMessage))
   \<and> (length topicName < 2 ^ 16 \<and> wellFormed m
        \<and> body @ sp = wireMessage m @ rest
        \<and> 18 + length (wireBytes (Key m)) + 4 \<le> length body \<longrightarrow>
      DecodeFetchResponse
        \<lparr>elems = wireOnePartition topicName partitionId errorCode hwm 1 @ body, spare = sp\<rparr>
      = Inr ([\<lparr>TopicName_f = topicName,
                TopicDatas =
                  [\<lparr>Partition = partitionId, ErrorCode = errorCode,
                      HighwaterMarkOffset = hwm, MessageSetSize = 1,
                      MessageSet = [m]\<rparr>]\<rparr>],
             None))
   \<and> (length topicName < 2 ^ 16 \<and> wellFormed m
        \<and> body @ sp = take stop (wireMessage m) \<and> stop < length (wireMessage m) \<longrightarrow>
      (\<exists>e. DecodeFetchResponse
              \<lparr>elems = wireOnePartition topicName partitionId errorCode hwm 1 @ body,
                 spare = sp\<rparr>
            = Inl e))"
proof (intro conjI impI ballI)
  fix t d
  assume dec: "DecodeFetchResponse payload = Inr (r, err)"
    and t: "t \<in> set r" and d: "d \<in> set (TopicDatas t)"
  from DecodeFetchResponse_elem [OF dec t d] obtain off off' where
    rd: "readTopicData payload off = Inr (d, off')" by blast
  from readTopicData_onWire(1) [OF rd] obtain k where k: "k \<le> length (MessageSet d)"
    "onWire payload off (wireTopicDataHead d @ concat (map wireMessage (take k (MessageSet d))))"
    "list_all wellFormed (take k (MessageSet d))"
    "drop k (MessageSet d) = replicate (length (MessageSet d) - k) zeroMessage"
    by blast
  from k(2) have "onWire payload (off + 18) (concat (map wireMessage (take k (MessageSet d))))"
    by (simp add: onWire_append)
  with k show "\<exists>off k. k \<le> length (MessageSet d)
            \<and> onWire payload off (concat (map wireMessage (take k (MessageSet d))))
            \<and> list_all wellFormed (take k (MessageSet d))
            \<and> drop k (MessageSet d) = replicate (length (MessageSet d) - k) zeroMessage"
    by blast
next
  assume "length topicName < 2 ^ 16 \<and> wellFormed m
        \<and> body @ sp = wireMessage m @ rest
        \<and> 18 + length (wireBytes (Key m)) + 4 \<le> length body"
  then show "DecodeFetchResponse
        \<lparr>elems = wireOnePartition topicName partitionId errorCode hwm 1 @ body, spare = sp\<rparr>
      = Inr ([\<lparr>TopicName_f = topicName,
                TopicDatas =
                  [\<lparr>Partition = partitionId, ErrorCode = errorCode,
                      HighwaterMarkOffset = hwm, MessageSetSize = 1,
                      MessageSet = [m]\<rparr>]\<rparr>],
             None)"
    by (intro DecodeFetchResponse_message_backing [where rest = rest]) simp_all
next
  assume "length topicName < 2 ^ 16 \<and> wellFormed m
        \<and> body @ sp = take stop (wireMessage m) \<and> stop < length (wireMessage m)"
  then show "\<exists>e. DecodeFetchResponse
              \<lparr>elems = wireOnePartition topicName partitionId errorCode hwm 1 @ body,
                 spare = sp\<rparr>
            = Inl e"
    by (intro DecodeFetchResponse_message_cut [where m = m and t = stop]) simp_all
qed

theorem DecodeFetchResponse_key_value_witness:
  "DecodeFetchResponse \<lparr>elems = fetchHeadOne @ take 27 fetchMessage, spare = [99]\<rparr>
     = Inr ([\<lparr>TopicName_f = [116],
               TopicDatas =
                 [\<lparr>Partition = 7, ErrorCode = 3, HighwaterMarkOffset = 5,
                     MessageSetSize = 1, MessageSet = [spareMessage]\<rparr>]\<rparr>],
            None)
   \<and> Key spareMessage = None \<and> Value spareMessage = Some [7, 99]
   \<and> (\<exists>e. DecodeFetchResponse \<lparr>elems = fetchHeadOne @ take 27 fetchMessage, spare = []\<rparr>
              = Inl e)
   \<and> (\<exists>off. onWire \<lparr>elems = fetchHeadOne @ take 27 fetchMessage, spare = [99]\<rparr> off
                (wireMessage spareMessage))"
proof -
  let ?p = "\<lparr>elems = fetchHeadOne @ take 27 fetchMessage, spare = [99]\<rparr>"
  let ?d = "\<lparr>Partition = 7, ErrorCode = 3, HighwaterMarkOffset = 5,
             MessageSetSize = 1, MessageSet = [spareMessage]\<rparr>"
  let ?r = "[\<lparr>TopicName_f = [116], TopicDatas = [?d]\<rparr>]"
  have wf: "wellFormed spareMessage" "wellFormed decodedMessage"
    by (simp_all add: wellFormed_def fitsInt32_def spareMessage_def decodedMessage_def)
  have k: "Key spareMessage = None" "Value spareMessage = Some [7, 99]"
    by (simp_all add: spareMessage_def)
  have l: "18 + length (wireBytes (Key spareMessage)) + 4 \<le> length (take 27 fetchMessage)"
    by (simp add: k wireBytes_def fetchMessage_def)
  note full = DecodeFetchResponse_key_value [where topicName = "[116]" and m = spareMessage
    and body = "take 27 fetchMessage" and sp = "[99]" and rest = "[]"
    and partitionId = 7 and errorCode = 3 and hwm = 5]
  from full wf(1) l
  have 1: "DecodeFetchResponse ?p = Inr (?r, None)"
    by (simp add: fetchHeadOne_wire spareMessage_wire)
  have c: "27 < length (wireMessage decodedMessage)"
    by (simp add: fetchMessage_wire fetchMessage_def)
  note short = DecodeFetchResponse_key_value [where topicName = "[116]" and m = decodedMessage
    and body = "take 27 fetchMessage" and sp = "[]" and stop = 27
    and partitionId = 7 and errorCode = 3 and hwm = 5]
  from short wf(2) c
  have 2: "\<exists>e. DecodeFetchResponse \<lparr>elems = fetchHeadOne @ take 27 fetchMessage, spare = []\<rparr>
              = Inl e"
    by (simp add: fetchHeadOne_wire fetchMessage_wire)
  note sound = DecodeFetchResponse_key_value [where payload = ?p and r = ?r and err = None]
  from sound 1
  have "\<forall>t \<in> set ?r. \<forall>d \<in> set (TopicDatas t).
         \<exists>off k. k \<le> length (MessageSet d)
            \<and> onWire ?p off (concat (map wireMessage (take k (MessageSet d))))
            \<and> list_all wellFormed (take k (MessageSet d))
            \<and> drop k (MessageSet d) = replicate (length (MessageSet d) - k) zeroMessage"
    by blast
  then obtain off n where n: "n \<le> length [spareMessage]"
    "onWire ?p off (concat (map wireMessage (take n [spareMessage])))"
    "drop n [spareMessage] = replicate (length [spareMessage] - n) zeroMessage"
    by auto
  have "spareMessage \<noteq> zeroMessage"
    by (simp add: spareMessage_def zeroMessage_def)
  with n(1,3) have "n = 1" by (cases n) auto
  with n(2) have 3: "\<exists>off. onWire ?p off (wireMessage spareMessage)"
    by auto
  from 1 2 3 k show ?thesis by simp
qed

end
